theory Spec2Isabelle
  imports Complex_Main
begin

section \<open>Values, errors and placements\<close>

text \<open>
  Document objects are referred to by identity (\<open>is\<close> in the Python source): an object
  identifier is a natural number, distinct from the object's \<open>Name\<close> and \<open>Label\<close>.
\<close>

type_synonym oid = nat

text \<open>
  A placement is a translation and a rotation quaternion; \<open>fc.Placement()\<close> is the
  identity.
\<close>

datatype placement = MkPlacement (Base: "rat \<times> rat \<times> rat") (Rotation: "rat \<times> rat \<times> rat \<times> rat")

definition identity_placement :: placement where
  "identity_placement = MkPlacement (0, 0, 0) (0, 0, 0, 1)"

text \<open>
  Every document object has a \<open>Name\<close> and a \<open>Label\<close>. The object behind a
  \<open>Joint\<close> carries the properties that \<open>Joint.init_properties\<close> adds: the hidden
  \<open>_Type\<close>, the enumeration \<open>Type\<close> (its list of values and the ordinal of the
  current one), \<open>Parent\<close>, \<open>Child\<close>, \<open>Origin\<close> and \<open>Placement\<close>. A link
  property that is unset is \<open>None\<close>.
\<close>

record docobj =
  Name :: string
  Label :: string

record joint_object = docobj +
  uType :: string
  Type_values :: "string list"
  Type_ordinal :: nat
  Parent :: "oid option"
  Child :: "oid option"
  Origin :: placement
  Placement :: placement

text \<open>The exceptions the modelled code can raise.\<close>

datatype pyerror =
    NameError string
  | AttributeError string
  | ReferenceError oid
  | ValueError
  | TypeError
  | ParseError
  | HostError string

text \<open>
  Sequencing of statements that can raise: the first exception ends the computation.
\<close>

definition bind :: "pyerror + 'a \<Rightarrow> ('a \<Rightarrow> pyerror + 'b) \<Rightarrow> pyerror + 'b" where
  "bind m f = (case m of Inl e \<Rightarrow> Inl e | Inr x \<Rightarrow> f x)"

text \<open>The Python values that are stored in attributes of the proxy classes.\<close>

datatype pyval =
    PNone
  | PBool bool
  | PInt int
  | PStr string
  | PTuple "pyval list"
  | PPlacement placement
  | PObj oid
  | PFeature joint_object

fun truthy :: "pyval \<Rightarrow> bool" where
  "truthy PNone = False"
| "truthy (PBool b) = b"
| "truthy (PInt i) = (i \<noteq> 0)"
| "truthy (PStr s) = (s \<noteq> [])"
| "truthy (PTuple vs) = (vs \<noteq> [])"
| "truthy (PPlacement p) = True"
| "truthy (PObj x) = True"
| "truthy (PFeature j) = True"

text \<open>
  \<open>a, b = state\<close>: a sequence of exactly two items is unpacked, a sequence of another
  length raises ValueError, a value that is not iterable raises TypeError.
\<close>

fun unpack2 :: "pyval \<Rightarrow> pyerror + (pyval \<times> pyval)" where
  "unpack2 (PTuple [a, b]) = Inr (a, b)"
| "unpack2 (PTuple vs) = Inl ValueError"
| "unpack2 (PStr [c, d]) = Inr (PStr [c], PStr [d])"
| "unpack2 (PStr s) = Inl ValueError"
| "unpack2 v = Inl TypeError"

section \<open>joint.py: the kinematic type enumeration\<close>

text \<open>\<open>Joint.type\<close> and \<open>Joint.type_enum\<close>, the class attributes of \<open>Joint\<close>.\<close>

definition Joint_type :: string where
  "Joint_type = ''Ros::Joint''"

definition type_enum :: "string list" where
  "type_enum = [''fixed'', ''revolute'', ''prismatic'']"

section \<open>joint.py: URDF export of a joint\<close>

text \<open>
  An XML element as \<open>xml.etree.ElementTree\<close> holds it: tag, attributes in insertion
  order, children in order.
\<close>

datatype xml = Element (tag: string) (attrib: "(string \<times> string) list") (children: "xml list")

definition is_space :: "char \<Rightarrow> bool" where
  "is_space c = (c = CHR '' '')"

definition name_char :: "char \<Rightarrow> bool" where
  "name_char c = (c \<notin> set '' /=<>'' \<and> c \<noteq> CHR 0x22)"

definition value_char :: "char \<Rightarrow> bool" where
  "value_char c = (c \<noteq> CHR 0x22 \<and> c \<noteq> CHR ''<'' \<and> c \<noteq> CHR ''&'')"

text \<open>
  \<open>et.fromstring\<close>, restricted to what \<open>export_urdf\<close> passes to it: one empty-element
  tag with at most one attribute in double quotes. Any other text is refused here.
\<close>

definition fromstring :: "string \<Rightarrow> pyerror + xml" where
  "fromstring text =
     (case text of
        [] \<Rightarrow> Inl ParseError
      | c # r \<Rightarrow>
          if c \<noteq> CHR ''<'' then Inl ParseError
          else
            let tg = takeWhile name_char r;
                r1 = dropWhile is_space (dropWhile name_char r)
            in if tg = [] then Inl ParseError
               else if r1 = ''/>'' then Inr (Element tg [] [])
               else
                 let k = takeWhile name_char r1;
                     r2 = dropWhile name_char r1
                 in (case r2 of
                       e # q # r3 \<Rightarrow>
                         if e = CHR ''='' \<and> q = CHR 0x22 \<and> k \<noteq> [] then
                           let v = takeWhile value_char r3;
                               r4 = dropWhile value_char r3
                           in (case r4 of
                                 q' # r5 \<Rightarrow>
                                   if q' = CHR 0x22 \<and> dropWhile is_space r5 = ''/>''
                                   then Inr (Element tg [(k, v)] [])
                                   else Inl ParseError
                               | [] \<Rightarrow> Inl ParseError)
                         else Inl ParseError
                     | _ \<Rightarrow> Inl ParseError))"

text \<open>\<open>element.attrib[k] = v\<close> and \<open>element.append(child)\<close>.\<close>

fun attrib_update :: "string \<Rightarrow> string \<Rightarrow> (string \<times> string) list \<Rightarrow> (string \<times> string) list" where
  "attrib_update k v [] = [(k, v)]"
| "attrib_update k v ((k', v') # kvs) =
     (if k = k' then (k, v) # kvs else (k', v') # attrib_update k v kvs)"

definition set_attrib :: "string \<Rightarrow> string \<Rightarrow> xml \<Rightarrow> xml" where
  "set_attrib k v e = Element (tag e) (attrib_update k v (attrib e)) (children e)"

definition append_xml :: "xml \<Rightarrow> xml \<Rightarrow> xml" where
  "append_xml child e = Element (tag e) (attrib e) (children e @ [child])"

text \<open>
  A \<open>Joint\<close> instance is its attribute dictionary. \<open>__init__\<close> stores one attribute,
  \<open>joint\<close>, the document object (after \<open>init_properties\<close> has set \<open>_Type\<close> and the
  values of the enumeration \<open>Type\<close>); the class has the attributes \<open>type\<close> and
  \<open>type_enum\<close>. Reading any other attribute raises AttributeError.
\<close>

type_synonym Joint = "string \<rightharpoonup> pyval"

definition init_properties :: "joint_object \<Rightarrow> joint_object" where
  "init_properties obj = obj\<lparr>uType := Joint_type, Type_values := type_enum\<rparr>"

definition Joint_init :: "joint_object \<Rightarrow> Joint" where
  "Joint_init obj = [''joint'' \<mapsto> PFeature (init_properties obj)]"

definition Joint_class :: "string \<rightharpoonup> pyval" where
  "Joint_class = [''type'' \<mapsto> PStr Joint_type, ''type_enum'' \<mapsto> PTuple (map PStr type_enum)]"

definition getattr :: "Joint \<Rightarrow> string \<Rightarrow> pyerror + pyval" where
  "getattr self a =
     (case self a of
        Some v \<Rightarrow> Inr v
      | None \<Rightarrow> (case Joint_class a of Some v \<Rightarrow> Inr v | None \<Rightarrow> Inl (AttributeError a)))"

text \<open>\<open>obj.Type\<close> reads the current value of the enumeration.\<close>

definition get_Type :: "pyval \<Rightarrow> pyerror + string" where
  "get_Type v =
     (case v of
        PFeature obj \<Rightarrow>
          if Type_ordinal obj < length (Type_values obj)
          then Inr (Type_values obj ! Type_ordinal obj)
          else Inl ValueError
      | _ \<Rightarrow> Inl (AttributeError ''Type''))"

text \<open>
  \<open>Joint.export_urdf\<close>. The helpers \<open>valid_urdf_name\<close> (utils) and
  \<open>urdf_origin_from_placement\<close> (export_urdf) are not among the sources: they are the
  parameters \<open>vn\<close> and \<open>uo\<close>. The texts of the parent and the child element are plain
  string literals in the source (they have no \<open>f\<close> prefix), so they are parsed as
  they stand.
\<close>

definition export_urdf ::
  "(pyval \<Rightarrow> pyerror + string) \<Rightarrow> (pyval \<Rightarrow> pyerror + xml) \<Rightarrow> Joint \<Rightarrow> pyerror + xml" where
  \<open>export_urdf vn uo self =
     bind (fromstring ''<joint/>'') (\<lambda>x0.
     bind (getattr self ''name'') (\<lambda>nm.
     bind (vn nm) (\<lambda>valid.
     bind (getattr self ''joint'') (\<lambda>j.
     bind (get_Type j) (\<lambda>ty.
     bind (fromstring ''<parent joint="{valid_urdf_name(self.parent.Label)}"/>'') (\<lambda>p.
     bind (fromstring ''<child joint="{valid_urdf_name(self.child.Label)}"/>'') (\<lambda>c.
     bind (getattr self ''origin'') (\<lambda>og.
     bind (uo og) (\<lambda>ox.
     bind (fromstring ''<axis xyz="0 0 1" />'') (\<lambda>ax.
     Inr (append_xml ax (append_xml ox (append_xml c (append_xml p
            (set_attrib ''type'' ty (set_attrib ''name'' valid x0))))))))))))))))\<close>

text \<open>
  The export scenario: joint shoulder of type revolute (ordinal 1) between the links
  with identifiers 1 (base) and 2 (arm), origin the translation (0, 0, 0.5); the same joint
  with both ends unset; and stand-ins for the two helpers that are not among the sources,
  used only to run \<open>export_urdf\<close> on the scenario.
\<close>

definition shoulder :: joint_object where
  "shoulder = \<lparr>Name = ''shoulder'', Label = ''shoulder'', uType = Joint_type,
     Type_values = type_enum, Type_ordinal = 1, Parent = Some 1, Child = Some 2,
     Origin = MkPlacement (0, 0, 1 / 2) (0, 0, 0, 1), Placement = identity_placement\<rparr>"

definition loose :: joint_object where
  "loose = shoulder\<lparr>Parent := None, Child := None\<rparr>"

definition sample_valid_urdf_name :: "pyval \<Rightarrow> pyerror + string" where
  "sample_valid_urdf_name v = (case v of PStr n \<Rightarrow> Inr n | _ \<Rightarrow> Inl TypeError)"

definition sample_urdf_origin :: "pyval \<Rightarrow> pyerror + xml" where
  "sample_urdf_origin v =
     (case v of PPlacement p \<Rightarrow> Inr (Element ''origin'' [] []) | _ \<Rightarrow> Inl TypeError)"

section \<open>The document: objects, groups and the host operations\<close>

text \<open>
  The objects that \<open>robot.py\<close> works on. \<open>kind\<close> tells a \<open>Ros::Link\<close> (what
  \<open>get_links\<close> selects) and an \<open>App::Link\<close> (the only kind with a \<open>LinkedObject\<close>)
  from everything else. \<open>Real\<close>, \<open>Visual\<close> and \<open>Collision\<close> are the three
  sequences of source objects of a link (the first is \<open>Real'\<close> here, \<open>Real\<close> being a
  constant of HOL). The three flags of a robot are \<open>None\<close> while the property does not
  exist (\<open>hasattr\<close> is false).
\<close>

datatype kind = Ros_Link | App_Link | Other

record dobj = docobj +
  kind :: kind
  Parents :: "(oid \<times> string) list"
  Group :: "oid list"
  LinkedObject :: "oid option"
  LinkPlacement :: placement
  Real' :: "oid list"
  Visual :: "oid list"
  Collision :: "oid list"
  ShowReal :: "bool option"
  ShowVisual :: "bool option"
  ShowCollision :: "bool option"

text \<open>What the code writes to the console: \<open>print\<close> and \<open>warn\<close>.\<close>

datatype event = Print string | Warn string

text \<open>
  The document: the live objects by identity, the next identity to allocate, and the
  console.
\<close>

record doc =
  objects :: "oid \<rightharpoonup> dobj"
  next_id :: oid
  console :: "event list"

text \<open>
  What the host application decides: the name an object really gets when a name is asked
  for (given the names in use), and the placement of a sub-object of a parent.
\<close>

record host =
  uniqueName :: "string list \<Rightarrow> string \<Rightarrow> string"
  getSubObject :: "oid \<Rightarrow> string \<Rightarrow> placement"

definition deref :: "doc \<Rightarrow> oid \<Rightarrow> pyerror + dobj" where
  "deref s x = (case objects s x of None \<Rightarrow> Inl (ReferenceError x) | Some ob \<Rightarrow> Inr ob)"

definition print :: "string \<Rightarrow> doc \<Rightarrow> doc" where
  "print msg s = s\<lparr>console := console s @ [Print msg]\<rparr>"

definition names :: "doc \<Rightarrow> string list" where
  "names s = concat (map (\<lambda>x. case objects s x of None \<Rightarrow> [] | Some ob \<Rightarrow> [Name ob])
                          [0 ..< next_id s])"

text \<open>
  \<open>doc.addObject(type, name)\<close>: a new object with a fresh identity; the host chooses its
  \<open>Name\<close> from the name asked for, the \<open>Label\<close> starts as the \<open>Name\<close>.
\<close>

definition new_object :: "string \<Rightarrow> string \<Rightarrow> dobj" where
  "new_object ty n =
     \<lparr>Name = n, Label = n,
      kind = (if ty = ''App::Link'' then App_Link else Other),
      Parents = [], Group = [], LinkedObject = None, LinkPlacement = identity_placement,
      Real' = [], Visual = [], Collision = [],
      ShowReal = None, ShowVisual = None, ShowCollision = None\<rparr>"

definition addObject :: "host \<Rightarrow> string \<Rightarrow> string \<Rightarrow> doc \<Rightarrow> oid \<times> doc" where
  "addObject h ty name s =
     (let p = next_id s
      in (p, s\<lparr>objects := (objects s)(p \<mapsto> new_object ty (uniqueName h (names s) name)),
               next_id := Suc p\<rparr>))"

text \<open>Assignment to a property of a live object.\<close>

definition modify :: "oid \<Rightarrow> (dobj \<Rightarrow> dobj) \<Rightarrow> doc \<Rightarrow> pyerror + doc" where
  "modify x f s =
     (case objects s x of
        None \<Rightarrow> Inl (ReferenceError x)
      | Some ob \<Rightarrow> Inr (s\<lparr>objects := (objects s)(x \<mapsto> f ob)\<rparr>))"

text \<open>\<open>group.addObject(p)\<close> of a group object: \<open>p\<close> joins the end of the group.\<close>

definition group_addObject :: "oid \<Rightarrow> oid \<Rightarrow> doc \<Rightarrow> pyerror + doc" where
  "group_addObject g p s =
     modify g (\<lambda>ob. if p \<in> set (Group ob) then ob else ob\<lparr>Group := Group ob @ [p]\<rparr>) s"

text \<open>
  \<open>doc.removeObject(name)\<close>: the object of this name leaves the document, and the host
  clears every reference to it from the link properties of the other objects. A name
  that no object has is an error of the host.
\<close>

definition has_name :: "doc \<Rightarrow> string \<Rightarrow> oid \<Rightarrow> bool" where
  "has_name s name x = (case objects s x of None \<Rightarrow> False | Some ob \<Rightarrow> Name ob = name)"

definition purge :: "(oid \<Rightarrow> bool) \<Rightarrow> dobj \<Rightarrow> dobj" where
  "purge dead ob =
     ob\<lparr>Parents := filter (\<lambda>ps. \<not> dead (fst ps)) (Parents ob),
        Group := filter (\<lambda>x. \<not> dead x) (Group ob),
        LinkedObject := (case LinkedObject ob of
                           None \<Rightarrow> None
                         | Some x \<Rightarrow> if dead x then None else Some x),
        Real' := filter (\<lambda>x. \<not> dead x) (Real' ob),
        Visual := filter (\<lambda>x. \<not> dead x) (Visual ob),
        Collision := filter (\<lambda>x. \<not> dead x) (Collision ob)\<rparr>"

definition removeObject :: "string \<Rightarrow> doc \<Rightarrow> pyerror + doc" where
  "removeObject name s =
     (if list_ex (has_name s name) [0 ..< next_id s]
      then Inr (s\<lparr>objects := (\<lambda>x. if has_name s name x then None
                                   else map_option (purge (has_name s name)) (objects s x))\<rparr>)
      else Inl (HostError ''removeObject''))"

section \<open>robot.py: synchronisation of the links of a robot\<close>

text \<open>
  \<open>_existing_link(link, o)\<close>: the first member of \<open>link.Group\<close> whose
  \<open>LinkedObject\<close> is the object \<open>o\<close> itself, \<open>None\<close> when the loop ends without one.
  Reading \<open>LinkedObject\<close> of a member that is not an \<open>App::Link\<close> raises.
\<close>

fun existing_link_loop :: "doc \<Rightarrow> oid list \<Rightarrow> oid \<Rightarrow> pyerror + oid option" where
  "existing_link_loop s [] src = Inr None"
| "existing_link_loop s (x # xs) src =
     (case objects s x of
        None \<Rightarrow> Inl (ReferenceError x)
      | Some ob \<Rightarrow>
          if kind ob \<noteq> App_Link then Inl (AttributeError ''LinkedObject'')
          else if LinkedObject ob = Some src then Inr (Some x)
          else existing_link_loop s xs src)"

definition existing_link :: "doc \<Rightarrow> oid \<Rightarrow> oid \<Rightarrow> pyerror + oid option" where
  "existing_link s link src = bind (deref s link) (\<lambda>l. existing_link_loop s (Group l) src)"

text \<open>
  The call \<open>warn(...)\<close> of \<open>_add_links_lod\<close>. \<open>robot.py\<close> neither defines nor imports
  the name \<open>warn\<close>; \<open>w\<close> says whether the name is bound when the call runs. It is not
  bound in the module as it is written (\<open>module_warn\<close>), and the call raises NameError.
\<close>

definition module_warn :: bool where
  "module_warn = False"

definition warn :: "bool \<Rightarrow> string \<Rightarrow> doc \<Rightarrow> pyerror + doc" where
  "warn w msg s =
     (if w then Inr (s\<lparr>console := console s @ [Warn msg]\<rparr>) else Inl (NameError ''warn''))"

text \<open>
  The body of the loop of \<open>_add_links_lod\<close> for an object \<open>o\<close> that has no link yet
  (lines 47 to 66).
\<close>

definition lod_name :: "string \<Rightarrow> string \<Rightarrow> string" where
  "lod_name lod link_name = lod @ ''_'' @ link_name @ ''000''"

definition link_placement :: "host \<Rightarrow> (oid \<times> string) list \<Rightarrow> placement" where
  "link_placement h parents =
     (case parents of
        [] \<Rightarrow> identity_placement
      | (parent, subname) # rest \<Rightarrow> getSubObject h parent subname)"

definition new_lod_link ::
  "host \<Rightarrow> bool \<Rightarrow> oid \<Rightarrow> string \<Rightarrow> oid \<Rightarrow> doc \<Rightarrow> pyerror + (oid \<times> doc)" where
  "new_lod_link h w link lod src s =
     bind (deref s link) (\<lambda>l.
     let name = lod_name lod (Name l);
         (lod_link, s1) = addObject h ''App::Link'' name s
     in
     bind (modify lod_link (\<lambda>ob. ob\<lparr>Label := name\<rparr>) s1) (\<lambda>s2.
     bind (deref s2 src) (\<lambda>so.
     bind (if length (Parents so) \<noteq> 1
           then warn w (''Wrong object type. '' @ Name so @ ''.Parents has more than one entry'') s2
           else Inr s2) (\<lambda>s3.
     bind (modify lod_link (\<lambda>ob. ob\<lparr>LinkPlacement := link_placement h (Parents so)\<rparr>) s3) (\<lambda>s4.
     bind (modify lod_link (\<lambda>ob. ob\<lparr>LinkedObject := Some src\<rparr>) s4) (\<lambda>s5.
     bind (group_addObject link lod_link s5) (\<lambda>s6.
     bind (deref s6 lod_link) (\<lambda>nl.
     Inr (lod_link, print (''Appending '' @ Name nl) s6)))))))))"

text \<open>\<open>_add_links_lod(link, objects, lod)\<close>: the loop, with the list built so far.\<close>

fun add_links_loop ::
  "host \<Rightarrow> bool \<Rightarrow> oid \<Rightarrow> string \<Rightarrow> oid list \<Rightarrow> oid list \<Rightarrow> doc \<Rightarrow> pyerror + (oid list \<times> doc)" where
  "add_links_loop h w link lod [] acc s = Inr (acc, s)"
| "add_links_loop h w link lod (src # rest) acc s =
     (case existing_link s link src of
        Inl e \<Rightarrow> Inl e
      | Inr (Some link_to_o) \<Rightarrow> add_links_loop h w link lod rest (acc @ [link_to_o]) s
      | Inr None \<Rightarrow>
          (case new_lod_link h w link lod src s of
             Inl e \<Rightarrow> Inl e
           | Inr (lod_link, s') \<Rightarrow> add_links_loop h w link lod rest (acc @ [lod_link]) s'))"

definition add_links_lod ::
  "host \<Rightarrow> bool \<Rightarrow> oid \<Rightarrow> oid list \<Rightarrow> string \<Rightarrow> doc \<Rightarrow> pyerror + (oid list \<times> doc)" where
  "add_links_lod h w link objs lod s = add_links_loop h w link lod objs [] s"

section \<open>robot.py: the Robot proxy\<close>

text \<open>
  The attributes of a \<open>Robot\<close> instance: \<open>robot\<close>, \<open>type\<close> and
  \<open>previous_link_count\<close> are set by \<open>__init__\<close>; the three \<open>previous_show_*\<close>
  attributes exist only once \<open>onBeforeChange\<close> has set them. \<open>robot\<close> can be missing
  (\<open>hasattr(self, 'robot')\<close> is tested by the source).
\<close>

record Robot =
  robot :: "oid option"
  type :: pyval
  previous_link_count :: pyval
  previous_show_real :: "bool option"
  previous_show_visual :: "bool option"
  previous_show_collision :: "bool option"

text \<open>
  \<open>Robot.__init__\<close> and \<open>Robot.init_properties\<close>: the three flags get their defaults.
\<close>

definition Robot_init_properties :: "oid \<Rightarrow> doc \<Rightarrow> pyerror + doc" where
  "Robot_init_properties obj s =
     modify obj (\<lambda>ob. ob\<lparr>ShowReal := Some True, ShowVisual := Some False,
                             ShowCollision := Some False\<rparr>) s"

definition Robot_init :: "oid \<Rightarrow> doc \<Rightarrow> pyerror + (Robot \<times> doc)" where
  "Robot_init obj s =
     bind (Robot_init_properties obj s) (\<lambda>s'.
     Inr (\<lparr>robot = Some obj, type = PStr ''Ros::Robot'', previous_link_count = PInt 0,
           previous_show_real = None, previous_show_visual = None,
           previous_show_collision = None\<rparr>, s'))"

text \<open>
  Modelled from the spec: \<open>get_links\<close> of \<open>utils.py\<close> is not among the sources. The
  spec has \<open>reset_group\<close> partition \<open>robot.Group\<close> into its Link-typed members and the
  rest, in the order of the group.
\<close>

definition get_links :: "doc \<Rightarrow> oid list \<Rightarrow> oid list" where
  "get_links s grp =
     filter (\<lambda>x. case objects s x of None \<Rightarrow> False | Some ob \<Rightarrow> kind ob = Ros_Link) grp"

text \<open>The members of the groups of all links (\<open>current_linked_objects\<close>).\<close>

fun current_linked :: "doc \<Rightarrow> oid list \<Rightarrow> pyerror + oid list" where
  "current_linked s [] = Inr []"
| "current_linked s (l # ls) =
     (case objects s l of
        None \<Rightarrow> Inl (ReferenceError l)
      | Some lo \<Rightarrow>
          (case current_linked s ls of
             Inl e \<Rightarrow> Inl e
           | Inr r \<Rightarrow> Inr (Group lo @ r)))"

text \<open>
  One of the three loops \<open>for l in links: all_linked_objects += _add_links_lod(l, l.X, lod)\<close>;
  \<open>sel\<close> is the property \<open>X\<close> read from the link.
\<close>

fun lod_pass ::
  "host \<Rightarrow> bool \<Rightarrow> (dobj \<Rightarrow> oid list) \<Rightarrow> string \<Rightarrow> oid list \<Rightarrow> oid list \<Rightarrow> doc
     \<Rightarrow> pyerror + (oid list \<times> doc)" where
  "lod_pass h w sel lod [] acc s = Inr (acc, s)"
| "lod_pass h w sel lod (l # ls) acc s =
     (case objects s l of
        None \<Rightarrow> Inl (ReferenceError l)
      | Some lo \<Rightarrow>
          (case add_links_lod h w l (sel lo) lod s of
             Inl e \<Rightarrow> Inl e
           | Inr (res, s') \<Rightarrow> lod_pass h w sel lod ls (acc @ res) s'))"

text \<open>Reading a flag of the robot object.\<close>

definition flag :: "doc \<Rightarrow> oid \<Rightarrow> (dobj \<Rightarrow> bool option) \<Rightarrow> string \<Rightarrow> pyerror + bool" where
  "flag s r prop a =
     bind (deref s r) (\<lambda>rob. case prop rob of None \<Rightarrow> Inl (AttributeError a) | Some b \<Rightarrow> Inr b)"

text \<open>
  The loop \<open>for o in objects_to_remove: doc.removeObject(o.Name)\<close>. The source iterates
  over a set; the model takes its elements in the order of their first appearance.
\<close>

fun remove_loop :: "oid list \<Rightarrow> doc \<Rightarrow> pyerror + doc" where
  "remove_loop [] s = Inr s"
| "remove_loop (x # xs) s =
     (case objects s x of
        None \<Rightarrow> Inl (ReferenceError x)
      | Some ob \<Rightarrow>
          (case removeObject (Name ob) s of
             Inl e \<Rightarrow> Inl e
           | Inr s' \<Rightarrow> remove_loop xs s'))"

definition reset_group :: "host \<Rightarrow> bool \<Rightarrow> Robot \<Rightarrow> doc \<Rightarrow> pyerror + doc" where
  "reset_group h w self s =
     (let s0 = print ''Robot::reset_group()'' s in
      bind (case robot self of None \<Rightarrow> Inl (AttributeError ''robot'') | Some r \<Rightarrow> Inr r) (\<lambda>r.
      bind (deref s0 r) (\<lambda>rob.
      if ShowReal rob = None \<or> ShowVisual rob = None \<or> ShowCollision rob = None then Inr s0
      else
        let links = get_links s0 (Group rob) in
        bind (current_linked s0 links) (\<lambda>current.
        bind (flag s0 r ShowReal ''ShowReal'') (\<lambda>b1.
        bind (if b1 then lod_pass h w Real' ''real'' links [] s0 else Inr ([], s0)) (\<lambda>(a1, s1).
        bind (flag s1 r ShowVisual ''ShowVisual'') (\<lambda>b2.
        bind (if b2 then lod_pass h w Visual ''visual'' links a1 s1 else Inr (a1, s1)) (\<lambda>(a2, s2).
        bind (flag s2 r ShowCollision ''ShowCollision'') (\<lambda>b3.
        bind (if b3 then lod_pass h w Collision ''collision'' links a2 s2 else Inr (a2, s2))
          (\<lambda>(a3, s3).
        remove_loop (filter (\<lambda>x. x \<notin> set a3) (remdups current)) s3))))))))))"

text \<open>\<open>Robot.execute\<close>, \<open>Robot.onBeforeChange\<close> and \<open>Robot.onChanged\<close>.\<close>

definition execute :: "host \<Rightarrow> bool \<Rightarrow> Robot \<Rightarrow> doc \<Rightarrow> pyerror + doc" where
  "execute h w self s = reset_group h w self s"

definition onBeforeChange :: "Robot \<Rightarrow> oid \<Rightarrow> string \<Rightarrow> doc \<Rightarrow> pyerror + (Robot \<times> doc)" where
  \<open>onBeforeChange self feature prop s =
     bind (deref s feature) (\<lambda>f.
     let s0 = print (''Robot::onBeforeChange('' @ Name f @ '', '' @ prop @ '')'') s in
     case robot self of
       None \<Rightarrow> Inr (self, print ''self has no "robot"'' s0)
     | Some r \<Rightarrow>
         bind (deref s0 r) (\<lambda>rob.
         case ShowReal rob of
           None \<Rightarrow> Inr (self, s0)
         | Some a \<Rightarrow>
             (case ShowVisual rob of
                None \<Rightarrow> Inr (self\<lparr>previous_show_real := Some a\<rparr>, s0)
              | Some b \<Rightarrow>
                  (case ShowCollision rob of
                     None \<Rightarrow> Inr (self\<lparr>previous_show_real := Some a,
                                        previous_show_visual := Some b\<rparr>, s0)
                   | Some c \<Rightarrow> Inr (self\<lparr>previous_show_real := Some a,
                                        previous_show_visual := Some b,
                                        previous_show_collision := Some c\<rparr>, s0)))))\<close>


text \<open>\<open>Robot.__getstate__\<close> and \<open>Robot.__setstate__\<close>.\<close>

definition getstate :: "Robot \<Rightarrow> pyval" where
  "getstate self = PTuple [type self, previous_link_count self]"

definition setstate :: "pyval \<Rightarrow> Robot \<Rightarrow> pyerror + Robot" where
  "setstate state self =
     (if truthy state then
        (case unpack2 state of
           Inl e \<Rightarrow> Inl e
         | Inr (a, b) \<Rightarrow> Inr (self\<lparr>type := a, previous_link_count := b\<rparr>))
      else Inr self)"

section \<open>Notions used by the claims\<close>

text \<open>
  What the host guarantees of a document: an identity that was never allocated has no
  object, and no two live objects have the same \<open>Name\<close>; and of the names it chooses:
  a new name is not in use.
\<close>

definition valid_doc :: "doc \<Rightarrow> bool" where
  "valid_doc s \<longleftrightarrow>
     (\<forall>x. next_id s \<le> x \<longrightarrow> objects s x = None)
     \<and> (\<forall>x y a b. objects s x = Some a \<and> objects s y = Some b \<and> Name a = Name b \<longrightarrow> x = y)"

definition fresh_names :: "host \<Rightarrow> bool" where
  "fresh_names h \<longleftrightarrow> (\<forall>used n. uniqueName h used n \<notin> set used)"

text \<open>
  Ownership: every member of the group of a link is an allocated identity, and the groups
  of two different links share no member.
\<close>

definition owned_apart :: "doc \<Rightarrow> oid list \<Rightarrow> bool" where
  "owned_apart s links \<longleftrightarrow>
     (\<forall>L\<in>set links. \<forall>lo. objects s L = Some lo \<longrightarrow> (\<forall>x\<in>set (Group lo). x < next_id s))
     \<and> (\<forall>L1\<in>set links. \<forall>L2\<in>set links. \<forall>a b.
           L1 \<noteq> L2 \<and> objects s L1 = Some a \<and> objects s L2 = Some b
           \<longrightarrow> set (Group a) \<inter> set (Group b) = {})"

text \<open>A proxy \<open>p\<close> references the source object \<open>src\<close>.\<close>

definition references :: "doc \<Rightarrow> oid \<Rightarrow> oid \<Rightarrow> bool" where
  "references s p src =
     (case objects s p of
        None \<Rightarrow> False
      | Some ob \<Rightarrow> kind ob = App_Link \<and> LinkedObject ob = Some src)"

text \<open>
  The source objects that the enabled flags of the robot ask for in a link, and the
  proxies that are demanded: those that the lookup of the synchronisation finds for
  such a source object in a link of the robot.
\<close>

definition enabled_sources :: "dobj \<Rightarrow> dobj \<Rightarrow> oid list" where
  "enabled_sources rob lo =
     (if ShowReal rob = Some True then Real' lo else [])
     @ (if ShowVisual rob = Some True then Visual lo else [])
     @ (if ShowCollision rob = Some True then Collision lo else [])"


text \<open>
  The source objects are owned by others: no source object of a link, no link of the
  robot and not the robot itself is a member of the group of a link.
\<close>

definition sources_apart :: "doc \<Rightarrow> oid \<Rightarrow> oid list \<Rightarrow> bool" where
  "sources_apart s r links \<longleftrightarrow>
     (\<forall>L\<in>set links. \<forall>lo. objects s L = Some lo \<longrightarrow>
        (\<forall>x\<in>set (Group lo).
           x \<noteq> r \<and> x \<notin> set links
           \<and> (\<forall>M\<in>set links. \<forall>mo. objects s M = Some mo \<longrightarrow>
                  x \<notin> set (Real' mo) \<and> x \<notin> set (Visual mo) \<and> x \<notin> set (Collision mo))))"


definition is_Warn :: "event \<Rightarrow> bool" where
  "is_Warn e = (case e of Warn m \<Rightarrow> True | Print m \<Rightarrow> False)"

text \<open>
  Notions of the proofs. \<open>fresh_link\<close> is the proxy that the loop body of
  \<open>_add_links_lod\<close> leaves in the document. \<open>pass_inv\<close> is the invariant of the three
  loops of \<open>reset_group\<close> that add links: \<open>s0\<close> is the document when the loops start,
  \<open>dem\<close> the pairs of a link and a source object that the enabled flags ask for,
  \<open>done\<close> the pairs already treated, \<open>acc\<close> the list \<open>all_linked_objects\<close> so far.
\<close>

definition fresh_link :: "host \<Rightarrow> doc \<Rightarrow> string \<Rightarrow> oid \<Rightarrow> placement \<Rightarrow> dobj" where
  "fresh_link h s name src pl =
     (new_object ''App::Link'' (uniqueName h (names s) name))
       \<lparr>Label := name, LinkPlacement := pl, LinkedObject := Some src\<rparr>"

definition same_links :: "doc \<Rightarrow> doc \<Rightarrow> bool" where
  "same_links s t \<longleftrightarrow>
     (\<forall>x ob. objects s x = Some ob \<longrightarrow>
        (\<exists>ob'. objects t x = Some ob' \<and> kind ob' = kind ob \<and> LinkedObject ob' = LinkedObject ob))"

definition pass_inv ::
  "oid list \<Rightarrow> doc \<Rightarrow> (oid \<times> oid) set \<Rightarrow> (oid \<times> oid) set \<Rightarrow> oid list \<Rightarrow> doc \<Rightarrow> bool" where
  "pass_inv links s0 dem done acc s \<longleftrightarrow>
     valid_doc s
     \<and> next_id s0 \<le> next_id s
     \<and> (\<forall>L\<in>set links. objects s0 L \<noteq> None)
     \<and> (\<forall>x ob. objects s0 x = Some ob \<longrightarrow>
          (\<exists>ys. objects s x = Some (ob\<lparr>Group := Group ob @ ys\<rparr>)
                \<and> set ys \<subseteq> set acc \<and> (\<forall>y\<in>set ys. next_id s0 \<le> y)))
     \<and> (\<forall>x ob. objects s0 x = None \<longrightarrow> objects s x = Some ob \<longrightarrow>
          x \<in> set acc \<and> next_id s0 \<le> x \<and> kind ob = App_Link)
     \<and> (\<forall>p\<in>set acc. \<exists>(L, src)\<in>dem. L \<in> set links \<and> existing_link s L src = Inr (Some p))
     \<and> (\<forall>(L, src)\<in>done. \<exists>p\<in>set acc. existing_link s L src = Inr (Some p))
     \<and> owned_apart s links
     \<and> (\<forall>x ob. x \<notin> set links \<longrightarrow> objects s0 x = Some ob \<longrightarrow> objects s x = Some ob)"

definition demand_pairs :: "doc \<Rightarrow> dobj \<Rightarrow> oid list \<Rightarrow> (oid \<times> oid) set" where
  "demand_pairs s rob links =
     {(L, src). L \<in> set links \<and> (\<exists>lo. objects s L = Some lo \<and> src \<in> set (enabled_sources rob lo))}"

section \<open>A sample document\<close>

text \<open>
  A robot (object 0) with the links base (1) and arm (2) and the assembly (5) in its group;
  the parts Box (3) and Cyl (4) of the assembly. base has Box as real object, Box and Cyl
  as visual objects, and already owns a proxy of Box (6) and a proxy of Cyl (7); arm has
  Cyl as real object and no proxy yet. Only \<open>ShowReal\<close> is set. The host of the sample
  keeps a name that is free and extends one that is taken.
\<close>

definition blank :: dobj where
  "blank = \<lparr>Name = [], Label = [], kind = Other, Parents = [], Group = [],
     LinkedObject = None, LinkPlacement = identity_placement,
     Real' = [], Visual = [], Collision = [],
     ShowReal = None, ShowVisual = None, ShowCollision = None\<rparr>"

definition sample_host :: host where
  "sample_host =
     \<lparr>uniqueName = (\<lambda>used n. if n \<in> set used
                                then n @ replicate (Suc (length (concat used))) (CHR ''1'')
                                else n),
      getSubObject = (\<lambda>parent sub. MkPlacement (1, 2, 3) (0, 0, 0, 1))\<rparr>"

definition sample_robot_object :: dobj where
  "sample_robot_object = blank\<lparr>Name := ''Robot'', Label := ''Robot'', Group := [1, 2, 5],
     ShowReal := Some True, ShowVisual := Some False, ShowCollision := Some False\<rparr>"

definition sample_base :: dobj where
  "sample_base = blank\<lparr>Name := ''base'', Label := ''base'', kind := Ros_Link, Group := [6, 7],
     Real' := [3], Visual := [3, 4]\<rparr>"

definition sample_doc :: doc where
  "sample_doc =
     \<lparr>objects = [
        0 \<mapsto> sample_robot_object,
        1 \<mapsto> sample_base,
        2 \<mapsto> blank\<lparr>Name := ''arm'', Label := ''arm'', kind := Ros_Link, Real' := [4]\<rparr>,
        3 \<mapsto> blank\<lparr>Name := ''Box'', Label := ''Box'', Parents := [(5, ''Box.'')]\<rparr>,
        4 \<mapsto> blank\<lparr>Name := ''Cyl'', Label := ''Cyl'', Parents := [(5, ''Cyl.'')]\<rparr>,
        5 \<mapsto> blank\<lparr>Name := ''Assembly'', Label := ''Assembly'', Group := [3, 4]\<rparr>,
        6 \<mapsto> blank\<lparr>Name := ''real_base000'', Label := ''real_base000'', kind := App_Link,
               LinkedObject := Some 3\<rparr>,
        7 \<mapsto> blank\<lparr>Name := ''visual_base000'', Label := ''visual_base000'', kind := App_Link,
               LinkedObject := Some 4\<rparr>],
      next_id = 8, console = []\<rparr>"

definition sample_robot :: Robot where
  "sample_robot = \<lparr>robot = Some 0, type = PStr ''Ros::Robot'', previous_link_count = PInt 2,
     previous_show_real = None, previous_show_visual = None, previous_show_collision = None\<rparr>"

definition sample_after :: doc where
  "sample_after =
     (case reset_group sample_host module_warn sample_robot sample_doc of
        Inl e \<Rightarrow> sample_doc
      | Inr t \<Rightarrow> t)"

text \<open>What a test reads off a document: the live objects, in the order of their identities.\<close>

definition dump :: "doc \<Rightarrow> (oid \<times> dobj) list" where
  "dump s = concat (map (\<lambda>x. case objects s x of None \<Rightarrow> [] | Some ob \<Rightarrow> [(x, ob)])
                        [0 ..< next_id s])"



definition two_parents :: dobj where
  "two_parents = blank\<lparr>Name := ''Cyl'', Label := ''Cyl'',
     Parents := [(5, ''Cyl.''), (9, ''Other.Cyl.'')]\<rparr>"

definition sample_doc_two_parents :: doc where
  "sample_doc_two_parents = sample_doc\<lparr>objects := (objects sample_doc)(4 \<mapsto> two_parents)\<rparr>"

text \<open>
  A document in which the proxy that base owns (object 3, a link to Box) is itself listed
  as a real object of base.
\<close>

definition nested_doc :: doc where
  "nested_doc =
     \<lparr>objects = [
        0 \<mapsto> blank\<lparr>Name := ''Robot'', Label := ''Robot'', Group := [1],
               ShowReal := Some True, ShowVisual := Some False, ShowCollision := Some False\<rparr>,
        1 \<mapsto> blank\<lparr>Name := ''base'', Label := ''base'', kind := Ros_Link, Group := [3],
               Real' := [3]\<rparr>,
        2 \<mapsto> blank\<lparr>Name := ''Box'', Label := ''Box''\<rparr>,
        3 \<mapsto> blank\<lparr>Name := ''real_base000'', Label := ''real_base000'', kind := App_Link,
               Parents := [(1, ''real_base000.'')], LinkedObject := Some 2\<rparr>],
      next_id = 4, console = []\<rparr>"

definition nested_after :: doc where
  "nested_after =
     (case reset_group sample_host module_warn sample_robot nested_doc of
        Inl e \<Rightarrow> nested_doc
      | Inr t \<Rightarrow> t)"

definition nested_after2 :: doc where
  "nested_after2 =
     (case reset_group sample_host module_warn sample_robot nested_after of
        Inl e \<Rightarrow> nested_after
      | Inr t \<Rightarrow> t)"

section \<open>Results\<close>

subsection \<open>Helper lemmas\<close>

lemma bind_Inr [simp]: "bind (Inr x) f = f x"
  by (simp add: bind_def)

lemma bind_Inl [simp]: "bind (Inl e) f = Inl e"
  by (simp add: bind_def)

lemmas parse_defs = fromstring_def name_char_def is_space_def value_char_def

lemma fromstring_joint: "fromstring ''<joint/>'' = Inr (Element ''joint'' [] [])"
  by (simp add: parse_defs)

lemma fromstring_parent:
  \<open>fromstring ''<parent joint="{valid_urdf_name(self.parent.Label)}"/>''
   = Inr (Element ''parent'' [(''joint'', ''{valid_urdf_name(self.parent.Label)}'')] [])\<close>
  by (simp add: parse_defs)

lemma fromstring_child:
  \<open>fromstring ''<child joint="{valid_urdf_name(self.child.Label)}"/>''
   = Inr (Element ''child'' [(''joint'', ''{valid_urdf_name(self.child.Label)}'')] [])\<close>
  by (simp add: parse_defs)

lemma fromstring_axis:
  \<open>fromstring ''<axis xyz="0 0 1" />'' = Inr (Element ''axis'' [(''xyz'', ''0 0 1'')] [])\<close>
  by (simp add: parse_defs)

lemmas export_defs = export_urdf_def fromstring_joint fromstring_parent fromstring_child
  fromstring_axis getattr_def Joint_init_def Joint_class_def get_Type_def init_properties_def
  shoulder_def loose_def type_enum_def sample_valid_urdf_name_def sample_urdf_origin_def
  set_attrib_def append_xml_def

lemma bind_eq_Inr: "bind m f = Inr y \<longleftrightarrow> (\<exists>x. m = Inr x \<and> f x = Inr y)"
  by (cases m) (simp_all add: bind_def)

lemma deref_eq_Inr: "deref s x = Inr ob \<longleftrightarrow> objects s x = Some ob"
  by (simp add: deref_def split: option.splits)

lemma modify_eq_Inr:
  "modify x f s = Inr s' \<longleftrightarrow> (\<exists>ob. objects s x = Some ob \<and> s' = s\<lparr>objects := (objects s)(x \<mapsto> f ob)\<rparr>)"
  by (auto simp: modify_def split: option.splits)

lemma warn_eq_Inr: "warn w msg s = Inr s' \<longleftrightarrow> w \<and> s' = s\<lparr>console := console s @ [Warn msg]\<rparr>"
  by (auto simp: warn_def)

lemma new_lod_link_result:
  assumes run: "new_lod_link h w link lod src s = Inr (p, s')"
    and fresh: "objects s (next_id s) = None"
  shows "\<exists>l so. objects s link = Some l \<and> p = next_id s \<and> link \<noteq> p
     \<and> (src \<noteq> p \<longrightarrow> objects s src = Some so)
     \<and> (src = p \<longrightarrow> Parents so = [])
     \<and> (length (Parents so) \<noteq> 1 \<longrightarrow> w)
     \<and> objects s' = (objects s)
          (p \<mapsto> fresh_link h s (lod_name lod (Name l)) src (link_placement h (Parents so)),
           link \<mapsto> l\<lparr>Group := (if p \<in> set (Group l) then Group l else Group l @ [p])\<rparr>)
     \<and> next_id s' = Suc p
     \<and> filter is_Warn (console s') = filter is_Warn (console s)
          @ (if length (Parents so) \<noteq> 1
             then [Warn (''Wrong object type. '' @ Name so @ ''.Parents has more than one entry'')]
             else [])"
proof -
  define p0 where "p0 = next_id s"
  from run obtain l where l: "objects s link = Some l"
    by (auto simp: new_lod_link_def bind_eq_Inr deref_eq_Inr)
  define name where "name = lod_name lod (Name l)"
  define ob1 where "ob1 = new_object ''App::Link'' (uniqueName h (names s) name)"
  define s1 where "s1 = s\<lparr>objects := (objects s)(p0 \<mapsto> ob1), next_id := Suc p0\<rparr>"
  have add: "addObject h ''App::Link'' name s = (p0, s1)"
    by (simp add: addObject_def Let_def p0_def s1_def ob1_def)
  have lp: "link \<noteq> p0" using l fresh by (auto simp: p0_def)
  define s2 where "s2 = s1\<lparr>objects := (objects s1)(p0 \<mapsto> ob1\<lparr>Label := name\<rparr>)\<rparr>"
  have m2: "modify p0 (\<lambda>ob. ob\<lparr>Label := name\<rparr>) s1 = Inr s2"
    by (simp add: modify_def s1_def s2_def)
  from run l have chain: "bind (deref s2 src) (\<lambda>so.
     bind (if length (Parents so) \<noteq> 1
           then warn w (''Wrong object type. '' @ Name so @ ''.Parents has more than one entry'') s2
           else Inr s2) (\<lambda>s3.
     bind (modify p0 (\<lambda>ob. ob\<lparr>LinkPlacement := link_placement h (Parents so)\<rparr>) s3) (\<lambda>s4.
     bind (modify p0 (\<lambda>ob. ob\<lparr>LinkedObject := Some src\<rparr>) s4) (\<lambda>s5.
     bind (group_addObject link p0 s5) (\<lambda>s6.
     bind (deref s6 p0) (\<lambda>nl.
     Inr (p0, print (''Appending '' @ Name nl) s6))))))) = Inr (p, s')"
    by (simp add: new_lod_link_def deref_def name_def[symmetric] add m2)
  then obtain so where so: "objects s2 src = Some so"
    and chain2: "bind (if length (Parents so) \<noteq> 1
           then warn w (''Wrong object type. '' @ Name so @ ''.Parents has more than one entry'') s2
           else Inr s2) (\<lambda>s3.
     bind (modify p0 (\<lambda>ob. ob\<lparr>LinkPlacement := link_placement h (Parents so)\<rparr>) s3) (\<lambda>s4.
     bind (modify p0 (\<lambda>ob. ob\<lparr>LinkedObject := Some src\<rparr>) s4) (\<lambda>s5.
     bind (group_addObject link p0 s5) (\<lambda>s6.
     bind (deref s6 p0) (\<lambda>nl.
     Inr (p0, print (''Appending '' @ Name nl) s6)))))) = Inr (p, s')"
    unfolding bind_eq_Inr deref_eq_Inr by blast
  define wl where "wl = (if length (Parents so) \<noteq> 1
             then [Warn (''Wrong object type. '' @ Name so @ ''.Parents has more than one entry'')]
             else [])"
  define s3 where "s3 = s2\<lparr>console := console s2 @ wl\<rparr>"
  from chain2 have w: "length (Parents so) \<noteq> 1 \<longrightarrow> w"
    by (auto simp: bind_eq_Inr warn_eq_Inr split: if_splits)
  have w3: "(if length (Parents so) \<noteq> 1
           then warn w (''Wrong object type. '' @ Name so @ ''.Parents has more than one entry'') s2
           else Inr s2) = Inr s3"
    using w by (simp add: warn_def s3_def wl_def)
  define ob5 where "ob5 = ob1\<lparr>Label := name, LinkPlacement := link_placement h (Parents so),
      LinkedObject := Some src\<rparr>"
  define s5 where "s5 = s3\<lparr>objects := (objects s3)(p0 \<mapsto> ob5)\<rparr>"
  have m5: "bind (modify p0 (\<lambda>ob. ob\<lparr>LinkPlacement := link_placement h (Parents so)\<rparr>) s3)
          (\<lambda>s4. bind (modify p0 (\<lambda>ob. ob\<lparr>LinkedObject := Some src\<rparr>) s4) f) = f s5" for f
    by (simp add: modify_def s3_def s2_def s1_def s5_def ob5_def)
  define l' where "l' = l\<lparr>Group := (if p0 \<in> set (Group l) then Group l else Group l @ [p0])\<rparr>"
  define s6 where "s6 = s5\<lparr>objects := (objects s5)(link \<mapsto> l')\<rparr>"
  have l5: "objects s5 link = Some l"
    using lp l by (simp add: s5_def s3_def s2_def s1_def)
  have m6: "group_addObject link p0 s5 = Inr s6"
    using l5 by (simp add: group_addObject_def modify_def s6_def l'_def)
  have d6: "deref s6 p0 = Inr ob5"
    using lp by (simp add: deref_def s6_def s5_def)
  from chain2[unfolded w3] have res: "p = p0" "s' = print (''Appending '' @ Name ob5) s6"
    by (simp_all add: m5 m6 d6)
  have objs: "objects s' = (objects s)(p0 \<mapsto> ob5, link \<mapsto> l')"
    by (simp add: res print_def s6_def s5_def s3_def s2_def s1_def)
  have nid: "next_id s' = Suc p0"
    by (simp add: res print_def s6_def s5_def s3_def s2_def s1_def)
  have cons: "filter is_Warn (console s') = filter is_Warn (console s) @ wl"
    by (simp add: res print_def s6_def s5_def s3_def s2_def s1_def is_Warn_def wl_def)
  have so1: "src \<noteq> p0 \<longrightarrow> objects s src = Some so"
    using so by (auto simp: s2_def s1_def split: if_splits)
  have so2: "src = p0 \<longrightarrow> Parents so = []"
    using so by (auto simp: s2_def s1_def ob1_def new_object_def split: if_splits)
  have ob5': "ob5 = fresh_link h s name src (link_placement h (Parents so))"
    by (simp add: ob5_def fresh_link_def ob1_def)
  show ?thesis
    using l lp so1 so2 w objs nid cons
    unfolding res(1) ob5' l'_def wl_def name_def p0_def by blast
qed


lemma names_set:
  assumes "valid_doc s"
  shows "set (names s) = {Name ob |x ob. objects s x = Some ob}"
proof -
  have "\<And>x ob. objects s x = Some ob \<Longrightarrow> x < next_id s"
    using assms unfolding valid_doc_def by (metis not_le option.distinct(1))
  then show ?thesis
    unfolding names_def
    apply (auto split: option.splits)
     apply metis
    apply (metis atLeastLessThan_iff le0)
    done
qed

lemma existing_link_loop_same:
  assumes "same_links s t" and "existing_link_loop s xs src = Inr r"
  shows "existing_link_loop t xs src = Inr r"
  using assms(2)
proof (induction xs)
  case Nil
  then show ?case by simp
next
  case (Cons x xs)
  from Cons.prems obtain ob where ob: "objects s x = Some ob"
    by (auto split: option.splits)
  with assms(1) obtain ob' where ob': "objects t x = Some ob'" "kind ob' = kind ob"
      "LinkedObject ob' = LinkedObject ob"
    unfolding same_links_def by blast
  with ob Cons show ?case by (auto split: if_splits)
qed

lemma existing_link_loop_append_Some:
  "existing_link_loop s xs src = Inr (Some p) \<Longrightarrow> existing_link_loop s (xs @ ys) src = Inr (Some p)"
  by (induction xs) (auto split: option.splits if_splits)

lemma existing_link_loop_append_None:
  "existing_link_loop s xs src = Inr None \<Longrightarrow>
   existing_link_loop s (xs @ ys) src = existing_link_loop s ys src"
  by (induction xs) (auto split: option.splits if_splits)

lemma existing_link_loop_Some_D:
  "existing_link_loop s xs src = Inr (Some p) \<Longrightarrow> p \<in> set xs \<and> references s p src"
  by (induction xs) (auto simp: references_def split: option.splits if_splits)

lemma existing_link_loop_None_D:
  "existing_link_loop s xs src = Inr None \<Longrightarrow> x \<in> set xs \<Longrightarrow>
   \<exists>ob. objects s x = Some ob \<and> kind ob = App_Link \<and> LinkedObject ob \<noteq> Some src"
  by (induction xs) (auto split: option.splits if_splits)

lemma existing_link_eq_Inr:
  "existing_link s L src = Inr r \<longleftrightarrow>
   (\<exists>lo. objects s L = Some lo \<and> existing_link_loop s (Group lo) src = Inr r)"
  by (simp add: existing_link_def bind_eq_Inr deref_eq_Inr)

lemma existing_link_Some_D:
  assumes "existing_link s L src = Inr (Some p)"
  shows "\<exists>lo. objects s L = Some lo \<and> p \<in> set (Group lo) \<and> references s p src"
  using assms existing_link_loop_Some_D unfolding existing_link_eq_Inr by blast

text \<open>Stability of the lookup when groups grow at the end.\<close>

lemma existing_link_stable:
  assumes "existing_link s L src = Inr (Some p)"
    and "same_links s t"
    and "\<And>lo. objects s L = Some lo \<Longrightarrow> \<exists>lo' ys. objects t L = Some lo' \<and> Group lo' = Group lo @ ys"
  shows "existing_link t L src = Inr (Some p)"
proof -
  from assms(1) obtain lo where lo: "objects s L = Some lo"
    "existing_link_loop s (Group lo) src = Inr (Some p)"
    unfolding existing_link_eq_Inr by blast
  from assms(3)[OF lo(1)] obtain lo' ys where lo': "objects t L = Some lo'" "Group lo' = Group lo @ ys"
    by blast
  have "existing_link_loop t (Group lo) src = Inr (Some p)"
    using existing_link_loop_same[OF assms(2) lo(2)] .
  then have "existing_link_loop t (Group lo') src = Inr (Some p)"
    unfolding lo'(2) by (rule existing_link_loop_append_Some)
  with lo'(1) show ?thesis unfolding existing_link_eq_Inr by blast
qed

lemma pass_inv_found:
  assumes inv: "pass_inv links s0 dem done acc s"
    and dem: "(link, src) \<in> dem" and link: "link \<in> set links"
    and found: "existing_link s link src = Inr (Some p)"
  shows "pass_inv links s0 dem (insert (link, src) done) (acc @ [p]) s"
proof -
  have j2: "\<forall>x ob. objects s0 x = Some ob \<longrightarrow>
          (\<exists>ys. objects s x = Some (ob\<lparr>Group := Group ob @ ys\<rparr>)
                \<and> set ys \<subseteq> set (acc @ [p]) \<and> (\<forall>y\<in>set ys. next_id s0 \<le> y))"
  proof (intro allI impI)
    fix x ob assume "objects s0 x = Some ob"
    with inv obtain ys where "objects s x = Some (ob\<lparr>Group := Group ob @ ys\<rparr>)"
      "set ys \<subseteq> set acc" "\<forall>y\<in>set ys. next_id s0 \<le> y"
      unfolding pass_inv_def by blast
    then show "\<exists>ys. objects s x = Some (ob\<lparr>Group := Group ob @ ys\<rparr>)
                \<and> set ys \<subseteq> set (acc @ [p]) \<and> (\<forall>y\<in>set ys. next_id s0 \<le> y)"
      by auto
  qed
  have j3: "\<forall>x ob. objects s0 x = None \<longrightarrow> objects s x = Some ob \<longrightarrow>
          x \<in> set (acc @ [p]) \<and> next_id s0 \<le> x \<and> kind ob = App_Link"
    using inv unfolding pass_inv_def by auto
  have j4: "\<forall>q\<in>set (acc @ [p]). \<exists>(L, sr)\<in>dem. L \<in> set links \<and> existing_link s L sr = Inr (Some q)"
  proof
    fix q assume "q \<in> set (acc @ [p])"
    then consider "q \<in> set acc" | "q = p" by auto
    then show "\<exists>(L, sr)\<in>dem. L \<in> set links \<and> existing_link s L sr = Inr (Some q)"
    proof cases
      case 1
      with inv show ?thesis unfolding pass_inv_def by blast
    next
      case 2
      with dem link found show ?thesis by blast
    qed
  qed
  have j8: "\<forall>(L, sr)\<in>insert (link, src) done. \<exists>q\<in>set (acc @ [p]). existing_link s L sr = Inr (Some q)"
  proof (intro ballI, clarify)
    fix L sr assume "(L, sr) \<in> insert (link, src) done"
    then consider "(L, sr) \<in> done" | "L = link" "sr = src" by auto
    then show "\<exists>q\<in>set (acc @ [p]). existing_link s L sr = Inr (Some q)"
    proof cases
      case 1
      with inv have "\<exists>q\<in>set acc. existing_link s L sr = Inr (Some q)"
        unfolding pass_inv_def by blast
      then show ?thesis by auto
    next
      case 2
      with found show ?thesis by auto
    qed
  qed
  from inv have rest: "valid_doc s" "next_id s0 \<le> next_id s" "\<forall>L\<in>set links. objects s0 L \<noteq> None"
    "owned_apart s links"
    "\<forall>x ob. x \<notin> set links \<longrightarrow> objects s0 x = Some ob \<longrightarrow> objects s x = Some ob"
    unfolding pass_inv_def by blast+
  show ?thesis
    unfolding pass_inv_def using rest j2 j3 j4 j8 by blast
qed

lemma valid_doc_live_less:
  "valid_doc s \<Longrightarrow> objects s x = Some ob \<Longrightarrow> x < next_id s"
  unfolding valid_doc_def by (metis not_le option.distinct(1))

lemma Name_fresh_link [simp]: "Name (fresh_link h s name src pl) = uniqueName h (names s) name"
  by (simp add: fresh_link_def new_object_def)

lemma kind_fresh_link [simp]: "kind (fresh_link h s name src pl) = App_Link"
  by (simp add: fresh_link_def new_object_def)

lemma LinkedObject_fresh_link [simp]: "LinkedObject (fresh_link h s name src pl) = Some src"
  by (simp add: fresh_link_def new_object_def)

lemma Label_fresh_link [simp]: "Label (fresh_link h s name src pl) = name"
  by (simp add: fresh_link_def new_object_def)

lemma LinkPlacement_fresh_link [simp]: "LinkPlacement (fresh_link h s name src pl) = pl"
  by (simp add: fresh_link_def new_object_def)

text \<open>The effect of one new link on a valid document in which the groups are owned apart.\<close>

lemma new_lod_link_step:
  assumes run: "new_lod_link h w link lod src s = Inr (p, s')"
    and valid: "valid_doc s"
    and members: "\<And>lo x. objects s link = Some lo \<Longrightarrow> x \<in> set (Group lo) \<Longrightarrow> x < next_id s"
  shows "\<exists>l so. objects s link = Some l \<and> p = next_id s \<and> link \<noteq> p \<and> objects s p = None
     \<and> (src \<noteq> p \<longrightarrow> objects s src = Some so)
     \<and> (src = p \<longrightarrow> Parents so = [])
     \<and> (length (Parents so) \<noteq> 1 \<longrightarrow> w)
     \<and> (\<forall>x. objects s' x =
            (if x = link then Some (l\<lparr>Group := Group l @ [p]\<rparr>)
             else if x = p
               then Some (fresh_link h s (lod_name lod (Name l)) src (link_placement h (Parents so)))
               else objects s x))
     \<and> next_id s' = Suc p
     \<and> filter is_Warn (console s') = filter is_Warn (console s)
          @ (if length (Parents so) \<noteq> 1
             then [Warn (''Wrong object type. '' @ Name so @ ''.Parents has more than one entry'')]
             else [])"
proof -
  have fresh: "objects s (next_id s) = None"
    using valid unfolding valid_doc_def by simp
  from new_lod_link_result[OF run fresh] obtain l so where
    r: "objects s link = Some l" "p = next_id s" "link \<noteq> p"
      "src \<noteq> p \<longrightarrow> objects s src = Some so" "src = p \<longrightarrow> Parents so = []"
      "length (Parents so) \<noteq> 1 \<longrightarrow> w"
      "objects s' = (objects s)
          (p \<mapsto> fresh_link h s (lod_name lod (Name l)) src (link_placement h (Parents so)),
           link \<mapsto> l\<lparr>Group := (if p \<in> set (Group l) then Group l else Group l @ [p])\<rparr>)"
      "next_id s' = Suc p"
      "filter is_Warn (console s') = filter is_Warn (console s)
          @ (if length (Parents so) \<noteq> 1
             then [Warn (''Wrong object type. '' @ Name so @ ''.Parents has more than one entry'')]
             else [])"
    by blast
  have "p \<notin> set (Group l)"
    using members[OF r(1)] r(2) by auto
  then have objs: "\<forall>x. objects s' x =
            (if x = link then Some (l\<lparr>Group := Group l @ [p]\<rparr>)
             else if x = p
               then Some (fresh_link h s (lod_name lod (Name l)) src (link_placement h (Parents so)))
               else objects s x)"
    unfolding r(7) by simp
  have "objects s p = None" using fresh r(2) by simp
  with r objs show ?thesis by blast
qed

lemma pass_inv_new:
  assumes inv: "pass_inv links s0 dem done acc s"
    and dem: "(link, src) \<in> dem" and link: "link \<in> set links"
    and none: "existing_link s link src = Inr None"
    and run: "new_lod_link h w link lod src s = Inr (p, s')"
    and host: "fresh_names h"
  shows "pass_inv links s0 dem (insert (link, src) done) (acc @ [p]) s'"
proof -
  from inv have valid: "valid_doc s" and mono: "next_id s0 \<le> next_id s"
    and live0: "\<forall>L\<in>set links. objects s0 L \<noteq> None"
    and j2: "\<And>x ob. objects s0 x = Some ob \<Longrightarrow>
          \<exists>ys. objects s x = Some (ob\<lparr>Group := Group ob @ ys\<rparr>)
                \<and> set ys \<subseteq> set acc \<and> (\<forall>y\<in>set ys. next_id s0 \<le> y)"
    and j3: "\<And>x ob. objects s0 x = None \<Longrightarrow> objects s x = Some ob \<Longrightarrow>
          x \<in> set acc \<and> next_id s0 \<le> x \<and> kind ob = App_Link"
    and j4: "\<And>q. q \<in> set acc \<Longrightarrow> \<exists>(L, sr)\<in>dem. L \<in> set links \<and> existing_link s L sr = Inr (Some q)"
    and j8: "\<And>L sr. (L, sr) \<in> done \<Longrightarrow> \<exists>q\<in>set acc. existing_link s L sr = Inr (Some q)"
    and apart: "owned_apart s links"
    and j9: "\<And>x ob. x \<notin> set links \<Longrightarrow> objects s0 x = Some ob \<Longrightarrow> objects s x = Some ob"
    unfolding pass_inv_def by blast+
  have members: "\<And>L lo x. L \<in> set links \<Longrightarrow> objects s L = Some lo \<Longrightarrow> x \<in> set (Group lo)
      \<Longrightarrow> x < next_id s"
    using apart unfolding owned_apart_def by blast
  have disj: "\<And>L1 L2 a b. L1 \<in> set links \<Longrightarrow> L2 \<in> set links \<Longrightarrow> L1 \<noteq> L2 \<Longrightarrow>
      objects s L1 = Some a \<Longrightarrow> objects s L2 = Some b \<Longrightarrow> set (Group a) \<inter> set (Group b) = {}"
    using apart unfolding owned_apart_def by blast
  have mlink: "\<And>lo x. objects s link = Some lo \<Longrightarrow> x \<in> set (Group lo) \<Longrightarrow> x < next_id s"
    using members link by blast
  have "\<exists>l so. objects s link = Some l \<and> p = next_id s \<and> link \<noteq> p \<and> objects s p = None
     \<and> (src \<noteq> p \<longrightarrow> objects s src = Some so)
     \<and> (src = p \<longrightarrow> Parents so = [])
     \<and> (length (Parents so) \<noteq> 1 \<longrightarrow> w)
     \<and> (\<forall>x. objects s' x =
            (if x = link then Some (l\<lparr>Group := Group l @ [p]\<rparr>)
             else if x = p
               then Some (fresh_link h s (lod_name lod (Name l)) src (link_placement h (Parents so)))
               else objects s x))
     \<and> next_id s' = Suc p
     \<and> filter is_Warn (console s') = filter is_Warn (console s)
          @ (if length (Parents so) \<noteq> 1
             then [Warn (''Wrong object type. '' @ Name so @ ''.Parents has more than one entry'')]
             else [])"
    by (rule new_lod_link_step[OF run valid]) (rule mlink, assumption+)
  then obtain l and so :: dobj where
    l: "objects s link = Some l" and p: "p = next_id s" and lp: "link \<noteq> p"
    and pnone: "objects s p = None"
    and objs0: "\<forall>x. objects s' x =
            (if x = link then Some (l\<lparr>Group := Group l @ [p]\<rparr>)
             else if x = p
               then Some (fresh_link h s (lod_name lod (Name l)) src (link_placement h (Parents so)))
               else objects s x)"
    and nid: "next_id s' = Suc p"
    by blast
  have objs: "objects s' x =
            (if x = link then Some (l\<lparr>Group := Group l @ [p]\<rparr>)
             else if x = p
               then Some (fresh_link h s (lod_name lod (Name l)) src (link_placement h (Parents so)))
               else objects s x)" for x
    using objs0 by blast
  define F where "F = fresh_link h s (lod_name lod (Name l)) src (link_placement h (Parents so))"
  have objs_link: "objects s' link = Some (l\<lparr>Group := Group l @ [p]\<rparr>)"
    using objs by simp
  have objs_p: "objects s' p = Some F"
    using objs lp by (simp add: F_def)
  have objs_other: "\<And>x. x \<noteq> link \<Longrightarrow> x \<noteq> p \<Longrightarrow> objects s' x = objects s x"
    using objs by simp
  have same: "same_links s s'"
    unfolding same_links_def
  proof (intro allI impI)
    fix x ob assume x: "objects s x = Some ob"
    then have "x \<noteq> p" using pnone by auto
    show "\<exists>ob'. objects s' x = Some ob' \<and> kind ob' = kind ob \<and> LinkedObject ob' = LinkedObject ob"
    proof (cases "x = link")
      case True
      with x l objs_link show ?thesis by auto
    next
      case False
      with \<open>x \<noteq> p\<close> x objs_other show ?thesis by auto
    qed
  qed
  have grow: "\<exists>lo' ys. objects s' L = Some lo' \<and> Group lo' = Group lo @ ys"
    if "objects s L = Some lo" for L lo
  proof (cases "L = link")
    case True
    with that l objs_link show ?thesis by auto
  next
    case False
    moreover have "L \<noteq> p" using that pnone by auto
    ultimately show ?thesis using that objs_other by auto
  qed
  have stable: "existing_link s' L sr = Inr (Some q)"
    if "existing_link s L sr = Inr (Some q)" for L sr q
    using existing_link_stable[OF that same grow] by blast
  have new: "existing_link s' link src = Inr (Some p)"
  proof -
    from none l have "existing_link_loop s (Group l) src = Inr None"
      unfolding existing_link_eq_Inr by auto
    then have "existing_link_loop s' (Group l) src = Inr None"
      using existing_link_loop_same[OF same] by blast
    then have "existing_link_loop s' (Group l @ [p]) src = existing_link_loop s' [p] src"
      by (rule existing_link_loop_append_None)
    also have "\<dots> = Inr (Some p)"
      using objs_p by (simp add: F_def)
    finally show ?thesis
      using objs_link unfolding existing_link_eq_Inr by auto
  qed
  have valid': "valid_doc s'"
    unfolding valid_doc_def
  proof (intro conjI allI impI)
    fix x assume "next_id s' \<le> x"
    then have "x \<noteq> p" "next_id s \<le> x" using nid p by auto
    moreover have "x \<noteq> link" using valid_doc_live_less[OF valid l] \<open>next_id s \<le> x\<close> by auto
    ultimately show "objects s' x = None"
      using objs_other valid unfolding valid_doc_def by auto
  next
    fix x y a b
    assume xy: "objects s' x = Some a \<and> objects s' y = Some b \<and> Name a = Name b"
    have nm: "Name F \<notin> set (names s)"
      using host unfolding fresh_names_def F_def by simp
    have old: "\<exists>c. objects s z = Some c \<and> Name c = Name d"
      if "objects s' z = Some d" "z \<noteq> p" for z d
    proof (cases "z = link")
      case True
      with that l objs_link show ?thesis by auto
    next
      case False
      with that objs_other show ?thesis by auto
    qed
    have notp: "z = p" if "objects s' z = Some d" "Name d = Name F" for z d
    proof (rule ccontr)
      assume "z \<noteq> p"
      from old[OF that(1) this] obtain c where "objects s z = Some c" "Name c = Name d" by blast
      then have "Name d \<in> set (names s)"
        unfolding names_set[OF valid] by (simp, metis)
      with nm that(2) show False by simp
    qed
    show "x = y"
    proof (cases "x = p")
      case True
      with xy objs_p have "Name b = Name F" by auto
      with notp xy True show ?thesis by metis
    next
      case False
      show ?thesis
      proof (cases "y = p")
        case True
        with xy objs_p have "Name a = Name F" by auto
        with notp xy True show ?thesis by metis
      next
        case yp: False
        from old[OF _ False] xy obtain c where c: "objects s x = Some c" "Name c = Name a" by blast
        from old[OF _ yp] xy obtain d where d: "objects s y = Some d" "Name d = Name b" by blast
        from c d xy valid show ?thesis unfolding valid_doc_def by metis
      qed
    qed
  qed
  have mono': "next_id s0 \<le> next_id s'" using mono nid p by simp
  have j2': "\<exists>ys. objects s' x = Some (ob\<lparr>Group := Group ob @ ys\<rparr>)
                \<and> set ys \<subseteq> set (acc @ [p]) \<and> (\<forall>y\<in>set ys. next_id s0 \<le> y)"
    if "objects s0 x = Some ob" for x ob
  proof -
    from j2[OF that] obtain ys where ys: "objects s x = Some (ob\<lparr>Group := Group ob @ ys\<rparr>)"
      "set ys \<subseteq> set acc" "\<forall>y\<in>set ys. next_id s0 \<le> y" by blast
    then have xp: "x \<noteq> p" using pnone by auto
    show ?thesis
    proof (cases "x = link")
      case True
      with ys l have "l = ob\<lparr>Group := Group ob @ ys\<rparr>" by simp
      then have "objects s' x = Some (ob\<lparr>Group := Group ob @ (ys @ [p])\<rparr>)"
        using objs_link True by simp
      moreover have "set (ys @ [p]) \<subseteq> set (acc @ [p])" using ys(2) by auto
      moreover have "\<forall>y\<in>set (ys @ [p]). next_id s0 \<le> y" using ys(3) mono p by auto
      ultimately show ?thesis by blast
    next
      case False
      with xp ys objs_other have "objects s' x = Some (ob\<lparr>Group := Group ob @ ys\<rparr>)" by simp
      moreover have "set ys \<subseteq> set (acc @ [p])" using ys(2) by auto
      ultimately show ?thesis using ys(3) by blast
    qed
  qed
  have j3': "x \<in> set (acc @ [p]) \<and> next_id s0 \<le> x \<and> kind ob = App_Link"
    if "objects s0 x = None" "objects s' x = Some ob" for x ob
  proof (cases "x = p")
    case True
    then show ?thesis using mono p that(2) objs_p by (simp add: F_def)
  next
    case False
    have "x \<noteq> link" using that(1) live0 link by auto
    with False that(2) objs_other have "objects s x = Some ob" by simp
    from j3[OF that(1) this] show ?thesis by simp
  qed
  have j4': "\<exists>(L, sr)\<in>dem. L \<in> set links \<and> existing_link s' L sr = Inr (Some q)"
    if "q \<in> set (acc @ [p])" for q
  proof (cases "q \<in> set acc")
    case True
    from j4[OF this] stable show ?thesis by blast
  next
    case False
    with that have "q = p" by simp
    with new dem link show ?thesis by blast
  qed
  have j8': "\<exists>q\<in>set (acc @ [p]). existing_link s' L sr = Inr (Some q)"
    if "(L, sr) \<in> insert (link, src) done" for L sr
  proof (cases "(L, sr) \<in> done")
    case True
    from j8[OF this] stable show ?thesis by auto
  next
    case False
    with that have "L = link" "sr = src" by auto
    with new show ?thesis by auto
  qed
  have grp: "\<exists>lo. objects s L = Some lo \<and> Group lo' = Group lo @ (if L = link then [p] else [])"
    if "L \<in> set links" "objects s' L = Some lo'" for L lo'
  proof -
    from live0 that(1) obtain ob where "objects s0 L = Some ob" by auto
    from j2[OF this] have "objects s L \<noteq> None" by auto
    then have "L \<noteq> p" using pnone by auto
    show ?thesis
    proof (cases "L = link")
      case True
      with that(2) objs_link l show ?thesis by auto
    next
      case False
      with \<open>L \<noteq> p\<close> that(2) objs_other show ?thesis by auto
    qed
  qed
  have apart': "owned_apart s' links"
    unfolding owned_apart_def
  proof (intro conjI ballI allI impI)
    fix L lo' x
    assume L: "L \<in> set links" and lo': "objects s' L = Some lo'" and x: "x \<in> set (Group lo')"
    from grp[OF L lo'] obtain lo where lo: "objects s L = Some lo"
      "Group lo' = Group lo @ (if L = link then [p] else [])" by blast
    from x lo(2) consider "x \<in> set (Group lo)" | "x = p" by (auto split: if_splits)
    then show "x < next_id s'"
    proof cases
      case 1
      from members[OF L lo(1) this] nid p show ?thesis by simp
    next
      case 2
      then show ?thesis using nid by simp
    qed
  next
    fix L1 L2 a b
    assume L1: "L1 \<in> set links" and L2: "L2 \<in> set links"
      and ab: "L1 \<noteq> L2 \<and> objects s' L1 = Some a \<and> objects s' L2 = Some b"
    from grp[OF L1] ab obtain a0 where a0: "objects s L1 = Some a0"
      "Group a = Group a0 @ (if L1 = link then [p] else [])" by blast
    from grp[OF L2] ab obtain b0 where b0: "objects s L2 = Some b0"
      "Group b = Group b0 @ (if L2 = link then [p] else [])" by blast
    have d0: "set (Group a0) \<inter> set (Group b0) = {}"
      using disj[OF L1 L2 _ a0(1) b0(1)] ab by simp
    have pa: "p \<notin> set (Group a0)" using members[OF L1 a0(1)] p by auto
    have pb: "p \<notin> set (Group b0)" using members[OF L2 b0(1)] p by auto
    show "set (Group a) \<inter> set (Group b) = {}"
      using d0 pa pb ab unfolding a0(2) b0(2) by (auto split: if_splits)
  qed
  have j9': "objects s' x = Some ob" if "x \<notin> set links" "objects s0 x = Some ob" for x ob
  proof -
    from j9[OF that] have sx: "objects s x = Some ob" .
    then have "x \<noteq> p" using pnone by auto
    moreover have "x \<noteq> link" using that(1) link by auto
    ultimately show ?thesis using objs_other sx by simp
  qed
  show ?thesis
    unfolding pass_inv_def
    apply (intro conjI)
            apply (rule valid')
          apply (rule mono')
         apply (rule live0)
        apply (use j2' in blast)
       apply (use j3' in blast)
      apply (use j4' in blast)
      apply (use j8' in blast)
     apply (rule apart')
    apply (use j9' in blast)
    done
qed

lemma add_links_loop_inv:
  assumes "add_links_loop h w link lod objs acc s = Inr (res, s')"
    and "pass_inv links s0 dem done acc s"
    and "link \<in> set links"
    and "\<forall>src\<in>set objs. (link, src) \<in> dem"
    and "fresh_names h"
  shows "pass_inv links s0 dem (done \<union> {link} \<times> set objs) res s'"
  using assms(1,2,4)
proof (induction objs arbitrary: acc s "done")
  case Nil
  then show ?case by simp
next
  case (Cons src rest)
  from Cons.prems(3) have dem: "(link, src) \<in> dem" and rest: "\<forall>x\<in>set rest. (link, x) \<in> dem"
    by auto
  have eq: "insert (link, src) done \<union> {link} \<times> set rest = done \<union> {link} \<times> set (src # rest)"
    by auto
  from Cons.prems(1) obtain r where r: "existing_link s link src = Inr r"
    by (auto split: sum.splits)
  show ?case
  proof (cases r)
    case None
    with Cons.prems(1) r obtain p s1 where
      new: "new_lod_link h w link lod src s = Inr (p, s1)"
      and loop: "add_links_loop h w link lod rest (acc @ [p]) s1 = Inr (res, s')"
      by (auto split: sum.splits)
    have "pass_inv links s0 dem (insert (link, src) done) (acc @ [p]) s1"
      using pass_inv_new[OF Cons.prems(2) dem assms(3) _ new assms(5)] r None by simp
    from Cons.IH[OF loop this rest] show ?thesis unfolding eq .
  next
    case (Some p)
    with Cons.prems(1) r have
      loop: "add_links_loop h w link lod rest (acc @ [p]) s = Inr (res, s')"
      by simp
    have "pass_inv links s0 dem (insert (link, src) done) (acc @ [p]) s"
      using pass_inv_found[OF Cons.prems(2) dem assms(3)] r Some by simp
    from Cons.IH[OF loop this rest] show ?thesis unfolding eq .
  qed
qed

lemma add_links_loop_prefix:
  "add_links_loop h w link lod objs acc s = Inr (res, s') \<Longrightarrow>
   add_links_loop h w link lod objs (pre @ acc) s = Inr (pre @ res, s')"
proof (induction objs arbitrary: acc s)
  case Nil
  then show ?case by simp
next
  case (Cons src rest)
  from Cons.prems obtain r where r: "existing_link s link src = Inr r"
    by (auto split: sum.splits)
  show ?case
  proof (cases r)
    case None
    with Cons.prems r obtain p s1 where
      new: "new_lod_link h w link lod src s = Inr (p, s1)"
      and loop: "add_links_loop h w link lod rest (acc @ [p]) s1 = Inr (res, s')"
      by (auto split: sum.splits)
    from Cons.IH[OF loop] show ?thesis using r None new by simp
  next
    case (Some p)
    with Cons.prems r have
      loop: "add_links_loop h w link lod rest (acc @ [p]) s = Inr (res, s')"
      by simp
    from Cons.IH[OF loop] show ?thesis using r Some by simp
  qed
qed

lemma pass_inv_old:
  assumes "pass_inv links s0 dem done acc s" and "objects s0 x = Some ob"
  shows "\<exists>ys. objects s x = Some (ob\<lparr>Group := Group ob @ ys\<rparr>)"
  using assms unfolding pass_inv_def by blast

lemma lod_pass_inv:
  assumes "lod_pass h w sel lod ls acc s = Inr (res, s')"
    and "pass_inv links s0 dem done acc s"
    and "set ls \<subseteq> set links"
    and "\<forall>l\<in>set ls. \<forall>lo. objects s0 l = Some lo \<longrightarrow> (\<forall>src\<in>set (sel lo). (l, src) \<in> dem)"
    and sel: "\<And>ob g. sel (ob\<lparr>Group := g\<rparr>) = sel ob"
    and "fresh_names h"
  shows "pass_inv links s0 dem
           (done \<union> {(l, src). l \<in> set ls \<and> (\<exists>lo. objects s0 l = Some lo \<and> src \<in> set (sel lo))})
           res s'"
  using assms(1,2,3,4)
proof (induction ls arbitrary: acc s "done")
  case Nil
  then show ?case by simp
next
  case (Cons l ls)
  from Cons.prems(1) obtain lo r s1 where lo: "objects s l = Some lo"
    and inner: "add_links_lod h w l (sel lo) lod s = Inr (r, s1)"
    and loop: "lod_pass h w sel lod ls (acc @ r) s1 = Inr (res, s')"
    by (auto split: option.splits sum.splits)
  from Cons.prems(3) have l: "l \<in> set links" and ls: "set ls \<subseteq> set links" by auto
  from Cons.prems(2) l obtain ob0 where ob0: "objects s0 l = Some ob0"
    unfolding pass_inv_def by auto
  from pass_inv_old[OF Cons.prems(2) ob0] lo have sel_eq: "sel lo = sel ob0"
    using sel by auto
  have demd: "\<forall>src\<in>set (sel lo). (l, src) \<in> dem"
    using Cons.prems(4) ob0 sel_eq by auto
  have inv1: "pass_inv links s0 dem (done \<union> {l} \<times> set (sel lo)) (acc @ r) s1"
  proof -
    from inner have "add_links_loop h w l lod (sel lo) (acc @ []) s = Inr (acc @ r, s1)"
      unfolding add_links_lod_def by (rule add_links_loop_prefix)
    then have "add_links_loop h w l lod (sel lo) acc s = Inr (acc @ r, s1)" by simp
    from add_links_loop_inv[OF this Cons.prems(2) l demd assms(6)] show ?thesis .
  qed
  have rest: "\<forall>l\<in>set ls. \<forall>lo. objects s0 l = Some lo \<longrightarrow> (\<forall>src\<in>set (sel lo). (l, src) \<in> dem)"
    using Cons.prems(4) by auto
  have eq: "done \<union> {l} \<times> set (sel lo) \<union> {(l, src). l \<in> set ls \<and> (\<exists>lo. objects s0 l = Some lo \<and> src \<in> set (sel lo))}
     = done \<union> {(l', src). l' \<in> set (l # ls) \<and> (\<exists>lo. objects s0 l' = Some lo \<and> src \<in> set (sel lo))}"
    using ob0 sel_eq by auto
  from Cons.IH[OF loop inv1 ls rest] show ?case unfolding eq .
qed

lemma objects_print [simp]: "objects (print m s) = objects s"
  by (simp add: print_def)

lemma next_id_print [simp]: "next_id (print m s) = next_id s"
  by (simp add: print_def)

lemma valid_doc_print [simp]: "valid_doc (print m s) = valid_doc s"
  by (simp add: valid_doc_def)

lemma owned_apart_print [simp]: "owned_apart (print m s) links = owned_apart s links"
  by (simp add: owned_apart_def)

lemma get_links_print [simp]: "get_links (print m s) g = get_links s g"
  by (simp add: get_links_def)

lemma get_links_live: "L \<in> set (get_links s g) \<Longrightarrow> \<exists>lo. objects s L = Some lo \<and> kind lo = Ros_Link"
  by (auto simp: get_links_def split: option.splits)

lemma pass_inv_init:
  assumes "valid_doc s" and "owned_apart s links" and "\<forall>L\<in>set links. objects s L \<noteq> None"
  shows "pass_inv links s dem {} [] s"
  unfolding pass_inv_def using assms by auto

lemma pass_inv_done_mono:
  assumes "pass_inv links s0 dem done acc s" and "done' \<subseteq> done"
  shows "pass_inv links s0 dem done' acc s"
proof -
  from assms have "\<forall>(L, src)\<in>done'. \<exists>p\<in>set acc. existing_link s L src = Inr (Some p)"
    unfolding pass_inv_def by blast
  with assms(1) show ?thesis unfolding pass_inv_def by blast
qed

lemma flagged_pass_inv:
  assumes run: "bind (flag s r fprop nm)
      (\<lambda>b. bind (if b then lod_pass h w sel lod links acc s else Inr (acc, s)) k) = Inr s'"
    and inv: "pass_inv links s0 dem done acc s"
    and rob: "objects s0 r = Some rob"
    and dem: "fprop rob = Some True \<Longrightarrow>
       \<forall>l\<in>set links. \<forall>lo. objects s0 l = Some lo \<longrightarrow> (\<forall>src\<in>set (sel lo). (l, src) \<in> dem)"
    and sel: "\<And>ob g. sel (ob\<lparr>Group := g\<rparr>) = sel ob"
    and flg: "\<And>ob g. fprop (ob\<lparr>Group := g\<rparr>) = fprop ob"
    and host: "fresh_names h"
  shows "\<exists>a1 s1. k (a1, s1) = Inr s'
     \<and> pass_inv links s0 dem
          (done \<union> (if fprop rob = Some True
                    then {(l, src). l \<in> set links \<and> (\<exists>lo. objects s0 l = Some lo \<and> src \<in> set (sel lo))}
                    else {})) a1 s1"
proof -
  from pass_inv_old[OF inv rob] obtain ys where "objects s r = Some (rob\<lparr>Group := Group rob @ ys\<rparr>)"
    by blast
  then have fl_eq: "flag s r fprop nm = (case fprop rob of None \<Rightarrow> Inl (AttributeError nm) | Some b \<Rightarrow> Inr b)"
    by (simp add: flag_def deref_def flg)
  from run obtain b where b: "fprop rob = Some b"
    and rest: "bind (if b then lod_pass h w sel lod links acc s else Inr (acc, s)) k = Inr s'"
    unfolding fl_eq by (cases "fprop rob") auto
  show ?thesis
  proof (cases b)
    case True
    with rest obtain a1 s1 where pass: "lod_pass h w sel lod links acc s = Inr (a1, s1)"
      and k: "k (a1, s1) = Inr s'"
      by (auto simp: bind_eq_Inr)
    from b True have t: "fprop rob = Some True" by simp
    from lod_pass_inv[OF pass inv subset_refl dem[OF t] sel host] k t show ?thesis
      by auto
  next
    case False
    with rest have "k (acc, s) = Inr s'" by simp
    moreover from b False have "fprop rob \<noteq> Some True" by simp
    ultimately show ?thesis using inv by auto
  qed
qed

lemma pass_inv_print [simp]:
  "pass_inv links (print m s0) dem done acc s = pass_inv links s0 dem done acc s"
  by (simp add: pass_inv_def)

lemma current_linked_print [simp]: "current_linked (print m s) ls = current_linked s ls"
  by (induction ls) (simp_all split: option.splits)

lemma bindE:
  assumes "bind m f = Inr y"
  obtains x where "m = Inr x" and "f x = Inr y"
  using assms unfolding bind_eq_Inr by blast

lemma reset_group_phases:
  assumes run: "reset_group h w self s = Inr s'"
    and r: "robot self = Some r" and rob: "objects s r = Some rob"
    and flags: "ShowReal rob \<noteq> None" "ShowVisual rob \<noteq> None" "ShowCollision rob \<noteq> None"
    and valid: "valid_doc s" and apart: "owned_apart s (get_links s (Group rob))"
    and host: "fresh_names h"
  shows "\<exists>current acc t. current_linked s (get_links s (Group rob)) = Inr current
      \<and> pass_inv (get_links s (Group rob)) s (demand_pairs s rob (get_links s (Group rob)))
           (demand_pairs s rob (get_links s (Group rob))) acc t
      \<and> remove_loop (filter (\<lambda>x. x \<notin> set acc) (remdups current)) t = Inr s'"
proof -
  define links where "links = get_links s (Group rob)"
  define dem where "dem = demand_pairs s rob links"
  define s0 where "s0 = print ''Robot::reset_group()'' s"
  have rob0: "objects s0 r = Some rob" using rob by (simp add: s0_def)
  have live: "\<forall>L\<in>set links. objects s L \<noteq> None"
    unfolding links_def using get_links_live by fastforce
  have inv0: "pass_inv links s0 dem {} [] s0"
    by (rule pass_inv_init) (use valid apart live in \<open>simp_all add: s0_def links_def\<close>)
  have unf: "reset_group h w self s = bind (current_linked s links) (\<lambda>current.
        bind (flag s0 r ShowReal ''ShowReal'') (\<lambda>b1.
        bind (if b1 then lod_pass h w Real' ''real'' links [] s0 else Inr ([], s0)) (\<lambda>(a1, s1).
        bind (flag s1 r ShowVisual ''ShowVisual'') (\<lambda>b2.
        bind (if b2 then lod_pass h w Visual ''visual'' links a1 s1 else Inr (a1, s1)) (\<lambda>(a2, s2).
        bind (flag s2 r ShowCollision ''ShowCollision'') (\<lambda>b3.
        bind (if b3 then lod_pass h w Collision ''collision'' links a2 s2 else Inr (a2, s2))
          (\<lambda>(a3, s3).
        remove_loop (filter (\<lambda>x. x \<notin> set a3) (remdups current)) s3)))))))"
  proof -
    from flags obtain fr fv fc where "ShowReal rob = Some fr" "ShowVisual rob = Some fv"
      "ShowCollision rob = Some fc" by auto
    with r rob show ?thesis
      unfolding links_def s0_def by (simp add: reset_group_def Let_def deref_def)
  qed
  from run[unfolded unf] obtain current where cur: "current_linked s links = Inr current"
    and c1: "bind (flag s0 r ShowReal ''ShowReal'') (\<lambda>b1.
        bind (if b1 then lod_pass h w Real' ''real'' links [] s0 else Inr ([], s0)) (\<lambda>(a1, s1).
        bind (flag s1 r ShowVisual ''ShowVisual'') (\<lambda>b2.
        bind (if b2 then lod_pass h w Visual ''visual'' links a1 s1 else Inr (a1, s1)) (\<lambda>(a2, s2).
        bind (flag s2 r ShowCollision ''ShowCollision'') (\<lambda>b3.
        bind (if b3 then lod_pass h w Collision ''collision'' links a2 s2 else Inr (a2, s2))
          (\<lambda>(a3, s3).
        remove_loop (filter (\<lambda>x. x \<notin> set a3) (remdups current)) s3)))))) = Inr s'"
    by (rule bindE)
  have d1: "ShowReal rob = Some True \<Longrightarrow>
       \<forall>l\<in>set links. \<forall>lo. objects s0 l = Some lo \<longrightarrow> (\<forall>src\<in>set (Real' lo). (l, src) \<in> dem)"
    by (auto simp: dem_def demand_pairs_def enabled_sources_def s0_def)
  have d2: "ShowVisual rob = Some True \<Longrightarrow>
       \<forall>l\<in>set links. \<forall>lo. objects s0 l = Some lo \<longrightarrow> (\<forall>src\<in>set (Visual lo). (l, src) \<in> dem)"
    by (auto simp: dem_def demand_pairs_def enabled_sources_def s0_def)
  have d3: "ShowCollision rob = Some True \<Longrightarrow>
       \<forall>l\<in>set links. \<forall>lo. objects s0 l = Some lo \<longrightarrow> (\<forall>src\<in>set (Collision lo). (l, src) \<in> dem)"
    by (auto simp: dem_def demand_pairs_def enabled_sources_def s0_def)
  define D1 where "D1 = (if ShowReal rob = Some True
     then {(l, src). l \<in> set links \<and> (\<exists>lo. objects s0 l = Some lo \<and> src \<in> set (Real' lo))} else {})"
  define D2 where "D2 = (if ShowVisual rob = Some True
     then {(l, src). l \<in> set links \<and> (\<exists>lo. objects s0 l = Some lo \<and> src \<in> set (Visual lo))} else {})"
  define D3 where "D3 = (if ShowCollision rob = Some True
     then {(l, src). l \<in> set links \<and> (\<exists>lo. objects s0 l = Some lo \<and> src \<in> set (Collision lo))} else {})"
  from flagged_pass_inv[OF c1 inv0 rob0 d1 _ _ host] obtain a1 s1 where
    c2: "bind (flag s1 r ShowVisual ''ShowVisual'') (\<lambda>b2.
        bind (if b2 then lod_pass h w Visual ''visual'' links a1 s1 else Inr (a1, s1)) (\<lambda>(a2, s2).
        bind (flag s2 r ShowCollision ''ShowCollision'') (\<lambda>b3.
        bind (if b3 then lod_pass h w Collision ''collision'' links a2 s2 else Inr (a2, s2))
          (\<lambda>(a3, s3).
        remove_loop (filter (\<lambda>x. x \<notin> set a3) (remdups current)) s3)))) = Inr s'"
    and inv1: "pass_inv links s0 dem ({} \<union> D1) a1 s1"
    unfolding D1_def by auto
  from flagged_pass_inv[OF c2 inv1 rob0 d2 _ _ host] obtain a2 s2 where
    c3: "bind (flag s2 r ShowCollision ''ShowCollision'') (\<lambda>b3.
        bind (if b3 then lod_pass h w Collision ''collision'' links a2 s2 else Inr (a2, s2))
          (\<lambda>(a3, s3).
        remove_loop (filter (\<lambda>x. x \<notin> set a3) (remdups current)) s3)) = Inr s'"
    and inv2: "pass_inv links s0 dem ({} \<union> D1 \<union> D2) a2 s2"
    unfolding D2_def by auto
  from flagged_pass_inv[OF c3 inv2 rob0 d3 _ _ host] obtain a3 s3 where
    c4: "remove_loop (filter (\<lambda>x. x \<notin> set a3) (remdups current)) s3 = Inr s'"
    and inv3: "pass_inv links s0 dem ({} \<union> D1 \<union> D2 \<union> D3) a3 s3"
    unfolding D3_def by auto
  have "dem \<subseteq> {} \<union> D1 \<union> D2 \<union> D3"
    unfolding dem_def demand_pairs_def enabled_sources_def D1_def D2_def D3_def s0_def
    by (auto split: if_splits)
  from pass_inv_done_mono[OF inv3 this] have "pass_inv links s dem dem a3 s3"
    unfolding s0_def by simp
  with cur c4 show ?thesis unfolding links_def dem_def by blast
qed

lemma purge_simps [simp]:
  "Name (purge dead ob) = Name ob"
  "Label (purge dead ob) = Label ob"
  "kind (purge dead ob) = kind ob"
  "LinkPlacement (purge dead ob) = LinkPlacement ob"
  "ShowReal (purge dead ob) = ShowReal ob"
  "ShowVisual (purge dead ob) = ShowVisual ob"
  "ShowCollision (purge dead ob) = ShowCollision ob"
  "Group (purge dead ob) = filter (\<lambda>x. \<not> dead x) (Group ob)"
  "Real' (purge dead ob) = filter (\<lambda>x. \<not> dead x) (Real' ob)"
  "Visual (purge dead ob) = filter (\<lambda>x. \<not> dead x) (Visual ob)"
  "Collision (purge dead ob) = filter (\<lambda>x. \<not> dead x) (Collision ob)"
  "LinkedObject (purge dead ob) = Some x \<longleftrightarrow> LinkedObject ob = Some x \<and> \<not> dead x"
  by (auto simp: purge_def split: option.splits)

lemma purge_purge: "purge P (purge Q ob) = purge (\<lambda>x. Q x \<or> P x) ob"
  by (cases "LinkedObject ob") (auto simp: purge_def)

lemma purge_none: "purge (\<lambda>x. False) = (\<lambda>ob. ob)"
proof
  fix ob :: dobj
  show "purge (\<lambda>x. False) ob = ob"
    by (cases "LinkedObject ob") (auto simp: purge_def)
qed

lemma removeObject_result:
  assumes valid: "valid_doc s" and x: "objects s x = Some ob"
  shows "removeObject (Name ob) s =
     Inr (s\<lparr>objects := (\<lambda>y. if y = x then None else map_option (purge (\<lambda>z. z = x)) (objects s y))\<rparr>)"
proof -
  have hn: "has_name s (Name ob) = (\<lambda>y. y = x)"
  proof
    fix y
    show "has_name s (Name ob) y = (y = x)"
      using valid x unfolding has_name_def valid_doc_def
      by (auto split: option.splits)
  qed
  have "x < next_id s" using valid_doc_live_less[OF valid x] .
  then have "list_ex (\<lambda>y. y = x) [0 ..< next_id s]"
    by (auto simp: list_ex_iff)
  then show ?thesis
    unfolding removeObject_def hn by simp
qed

lemma valid_doc_removed:
  assumes "valid_doc s"
  shows "valid_doc (s\<lparr>objects := (\<lambda>y. if P y then None else map_option (purge Q) (objects s y))\<rparr>)"
  unfolding valid_doc_def
proof (intro conjI allI impI)
  fix x
  assume "next_id (s\<lparr>objects := (\<lambda>y. if P y then None else map_option (purge Q) (objects s y))\<rparr>) \<le> x"
  then have "objects s x = None" using assms unfolding valid_doc_def by simp
  then show "objects (s\<lparr>objects := (\<lambda>y. if P y then None else map_option (purge Q) (objects s y))\<rparr>) x = None"
    by simp
next
  fix x y a b
  assume h: "objects (s\<lparr>objects := (\<lambda>y. if P y then None else map_option (purge Q) (objects s y))\<rparr>) x = Some a
     \<and> objects (s\<lparr>objects := (\<lambda>y. if P y then None else map_option (purge Q) (objects s y))\<rparr>) y = Some b
     \<and> Name a = Name b"
  then obtain a0 where a0: "objects s x = Some a0" "a = purge Q a0"
    by (auto split: if_splits)
  from h obtain b0 where b0: "objects s y = Some b0" "b = purge Q b0"
    by (auto split: if_splits)
  from h a0 b0 have "Name a0 = Name b0" by simp
  with a0 b0 assms show "x = y" unfolding valid_doc_def by blast
qed

lemma remove_loop_result:
  assumes "valid_doc s" and "remove_loop xs s = Inr s'"
  shows "objects s' = (\<lambda>y. if y \<in> set xs then None
                            else map_option (purge (\<lambda>z. z \<in> set xs)) (objects s y))
         \<and> next_id s' = next_id s \<and> console s' = console s"
  using assms
proof (induction xs arbitrary: s)
  case Nil
  then show ?case by (simp add: purge_none option.map_ident)
next
  case (Cons x xs)
  from Cons.prems(2) obtain ob where ob: "objects s x = Some ob"
    by (auto split: option.splits)
  define s1 where "s1 = s\<lparr>objects := (\<lambda>y. if y = x then None
      else map_option (purge (\<lambda>z. z = x)) (objects s y))\<rparr>"
  from Cons.prems(2) ob removeObject_result[OF Cons.prems(1) ob]
  have loop: "remove_loop xs s1 = Inr s'"
    by (simp add: s1_def)
  have v1: "valid_doc s1"
    unfolding s1_def by (rule valid_doc_removed[OF Cons.prems(1)])
  from Cons.IH[OF v1 loop] have ih: "objects s' = (\<lambda>y. if y \<in> set xs then None
                            else map_option (purge (\<lambda>z. z \<in> set xs)) (objects s1 y))"
    "next_id s' = next_id s1" "console s' = console s1"
    by auto
  have pq: "(\<lambda>z. z = x \<or> z \<in> set xs) = (\<lambda>z. z \<in> set (x # xs))"
    by auto
  have "objects s' y = (if y \<in> set (x # xs) then None
                            else map_option (purge (\<lambda>z. z \<in> set (x # xs))) (objects s y))" for y
  proof (cases "objects s y")
    case None
    then show ?thesis unfolding ih(1) s1_def by simp
  next
    case (Some oy)
    have "purge (\<lambda>z. z \<in> set xs) (purge (\<lambda>z. z = x) oy) = purge (\<lambda>z. z \<in> set (x # xs)) oy"
      unfolding purge_purge pq ..
    then show ?thesis unfolding ih(1) s1_def using Some by simp
  qed
  then have "objects s' = (\<lambda>y. if y \<in> set (x # xs) then None
                            else map_option (purge (\<lambda>z. z \<in> set (x # xs))) (objects s y))"
    by (rule ext)
  moreover have "next_id s' = next_id s" "console s' = console s"
    using ih(2,3) by (simp_all add: s1_def)
  ultimately show ?case by blast
qed

lemma current_linked_set:
  "current_linked s ls = Inr current \<Longrightarrow>
   set current = {x. \<exists>L\<in>set ls. \<exists>lo. objects s L = Some lo \<and> x \<in> set (Group lo)}"
proof (induction ls arbitrary: current)
  case Nil
  then show ?case by auto
next
  case (Cons l ls)
  from Cons.prems obtain lo r where lo: "objects s l = Some lo" and r: "current_linked s ls = Inr r"
    and c: "current = Group lo @ r"
    by (auto split: option.splits sum.splits)
  from Cons.IH[OF r] show ?case unfolding c using lo by auto
qed

lemma pass_inv_valid: "pass_inv links s0 dem done acc s \<Longrightarrow> valid_doc s"
  unfolding pass_inv_def by blast

lemma pass_inv_live: "pass_inv links s0 dem done acc s \<Longrightarrow> L \<in> set links \<Longrightarrow> \<exists>lo. objects s0 L = Some lo"
  unfolding pass_inv_def by blast

lemma pass_inv_grown:
  assumes "pass_inv links s0 dem done acc s" and "objects s0 x = Some ob"
  shows "\<exists>ys. objects s x = Some (ob\<lparr>Group := Group ob @ ys\<rparr>)
                \<and> set ys \<subseteq> set acc \<and> (\<forall>y\<in>set ys. next_id s0 \<le> y)"
  using assms unfolding pass_inv_def by blast

lemma pass_inv_fresh:
  assumes "pass_inv links s0 dem done acc s" and "objects s0 x = None" and "objects s x = Some ob"
  shows "x \<in> set acc \<and> next_id s0 \<le> x \<and> kind ob = App_Link"
  using assms unfolding pass_inv_def by blast

lemma pass_inv_acc:
  assumes "pass_inv links s0 dem done acc s" and "p \<in> set acc"
  shows "\<exists>L src. (L, src) \<in> dem \<and> L \<in> set links \<and> existing_link s L src = Inr (Some p)"
  using assms unfolding pass_inv_def by blast

lemma pass_inv_done:
  assumes "pass_inv links s0 dem done acc s" and "(L, src) \<in> done"
  shows "\<exists>p\<in>set acc. existing_link s L src = Inr (Some p)"
  using assms unfolding pass_inv_def by blast

lemma pass_inv_apart: "pass_inv links s0 dem done acc s \<Longrightarrow> owned_apart s links"
  unfolding pass_inv_def by blast

lemma owned_apart_same:
  assumes "owned_apart s links" and "L1 \<in> set links" and "L2 \<in> set links"
    and "objects s L1 = Some a" and "objects s L2 = Some b"
    and "x \<in> set (Group a)" and "x \<in> set (Group b)"
  shows "L1 = L2"
  using assms unfolding owned_apart_def by blast

lemma references_unique: "references s p a \<Longrightarrow> references s p b \<Longrightarrow> a = b"
  by (auto simp: references_def split: option.splits)

text \<open>A member of the group of a link that is in the list is the one the lookup finds.\<close>

lemma first_in_own_group:
  assumes inv: "pass_inv links s0 dem done acc t"
    and L: "L \<in> set links" and lt: "objects t L = Some lt" and x: "x \<in> set (Group lt)"
    and acc: "x \<in> set acc" and ref: "references t x src"
  shows "existing_link t L src = Inr (Some x) \<and> (L, src) \<in> dem"
proof -
  from pass_inv_acc[OF inv acc] obtain L1 s1 where d: "(L1, s1) \<in> dem" and L1: "L1 \<in> set links"
    and f: "existing_link t L1 s1 = Inr (Some x)" by blast
  from existing_link_Some_D[OF f] obtain l1 where l1: "objects t L1 = Some l1"
    "x \<in> set (Group l1)" "references t x s1" by blast
  have "s1 = src" using references_unique[OF l1(3) ref] .
  moreover have "L1 = L"
    using owned_apart_same[OF pass_inv_apart[OF inv] L1 L l1(1) lt l1(2) x] .
  ultimately show ?thesis using f d by simp
qed

lemma member_in_acc:
  assumes inv: "pass_inv links s dem done acc t"
    and cur: "current_linked s links = Inr current"
    and L: "L \<in> set links" and lt: "objects t L = Some lt" and x: "x \<in> set (Group lt)"
    and nd: "x \<notin> set current - set acc"
  shows "x \<in> set acc"
proof -
  from pass_inv_live[OF inv L] obtain l0 where l0: "objects s L = Some l0" by blast
  from pass_inv_grown[OF inv l0] lt obtain ys where
    ys: "lt = l0\<lparr>Group := Group l0 @ ys\<rparr>" "set ys \<subseteq> set acc" by auto
  from x ys(1) consider "x \<in> set (Group l0)" | "x \<in> set ys" by auto
  then show ?thesis
  proof cases
    case 1
    then have "x \<in> set current"
      unfolding current_linked_set[OF cur] using L l0 by blast
    with nd show ?thesis by simp
  next
    case 2
    with ys(2) show ?thesis by auto
  qed
qed

lemma reset_group_final:
  assumes run: "reset_group h w self s = Inr s'"
    and r: "robot self = Some r" and rob: "objects s r = Some rob"
    and flags: "ShowReal rob \<noteq> None" "ShowVisual rob \<noteq> None" "ShowCollision rob \<noteq> None"
    and valid: "valid_doc s" and apart: "owned_apart s (get_links s (Group rob))"
    and host: "fresh_names h"
  shows "\<exists>current acc t. current_linked s (get_links s (Group rob)) = Inr current
      \<and> pass_inv (get_links s (Group rob)) s (demand_pairs s rob (get_links s (Group rob)))
           (demand_pairs s rob (get_links s (Group rob))) acc t
      \<and> objects s' = (\<lambda>y. if y \<in> set current - set acc then None
                            else map_option (purge (\<lambda>z. z \<in> set current - set acc)) (objects t y))
      \<and> next_id s' = next_id t"
proof -
  from reset_group_phases[OF assms] obtain current acc t where
    cur: "current_linked s (get_links s (Group rob)) = Inr current"
    and inv: "pass_inv (get_links s (Group rob)) s (demand_pairs s rob (get_links s (Group rob)))
           (demand_pairs s rob (get_links s (Group rob))) acc t"
    and rem: "remove_loop (filter (\<lambda>x. x \<notin> set acc) (remdups current)) t = Inr s'"
    by blast
  have st: "set (filter (\<lambda>x. x \<notin> set acc) (remdups current)) = set current - set acc"
    by auto
  from remove_loop_result[OF pass_inv_valid[OF inv] rem]
  have "objects s' = (\<lambda>y. if y \<in> set current - set acc then None
                            else map_option (purge (\<lambda>z. z \<in> set current - set acc)) (objects t y))"
    "next_id s' = next_id t"
    unfolding st by blast+
  with cur inv show ?thesis by blast
qed

lemma references_purged:
  assumes "\<And>y. objects s' y = (if y \<in> D then None else map_option (purge (\<lambda>z. z \<in> D)) (objects t y))"
    and "references s' p src"
  shows "references t p src \<and> p \<notin> D \<and> src \<notin> D"
  using assms(2) unfolding references_def assms(1)
  by (auto split: option.splits if_splits)

lemma dedup_after:
  assumes inv: "pass_inv links s dem done acc t"
    and cur: "current_linked s links = Inr current"
    and final: "\<And>y. objects s' y = (if y \<in> set current - set acc then None
         else map_option (purge (\<lambda>z. z \<in> set current - set acc)) (objects t y))"
    and L: "L \<in> set links" and lo': "objects s' L = Some lo'" and p: "p \<in> set (Group lo')"
    and ref: "references s' p src"
  shows "existing_link t L src = Inr (Some p) \<and> p \<in> set acc \<and> (L, src) \<in> dem"
proof -
  from lo' obtain lt where lt: "objects t L = Some lt"
    and lo'_eq: "lo' = purge (\<lambda>z. z \<in> set current - set acc) lt"
    unfolding final by (auto split: if_splits)
  from p have pt: "p \<in> set (Group lt)" and pD: "p \<notin> set current - set acc"
    unfolding lo'_eq by auto
  have reft: "references t p src"
    using references_purged[of s' "set current - set acc" t p src] final ref by blast
  have pacc: "p \<in> set acc"
    using member_in_acc[OF inv cur L lt pt pD] .
  from first_in_own_group[OF inv L lt pt pacc reft] pacc show ?thesis by simp
qed







lemma length_le_concat: "x \<in> set used \<Longrightarrow> length x \<le> length (concat used)"
  by (induction used) auto

lemma sample_fresh: "fresh_names sample_host"
proof -
  have "n @ replicate (Suc (length (concat used))) (CHR ''1'') \<notin> set used" for n :: string and used
  proof
    assume "n @ replicate (Suc (length (concat used))) (CHR ''1'') \<in> set used"
    from length_le_concat[OF this] show False by simp
  qed
  then show ?thesis
    unfolding fresh_names_def sample_host_def by simp
qed

lemmas sample_defs = sample_doc_def sample_robot_object_def sample_base_def blank_def

lemma sample_links: "get_links sample_doc (Group sample_robot_object) = [1, 2]"
  by (simp add: get_links_def sample_defs)

lemma sample_valid: "valid_doc sample_doc"
  unfolding valid_doc_def
proof (intro conjI allI impI)
  fix x assume "next_id sample_doc \<le> x"
  then show "objects sample_doc x = None" by (simp add: sample_doc_def)
next
  fix x y a b
  assume "objects sample_doc x = Some a \<and> objects sample_doc y = Some b \<and> Name a = Name b"
  then show "x = y"
    by (auto simp: sample_defs split: if_splits)
qed

lemma sample_apart: "owned_apart sample_doc (get_links sample_doc (Group sample_robot_object))"
  unfolding sample_links owned_apart_def
  by (simp add: sample_defs)

lemma sample_run: "reset_group sample_host module_warn sample_robot sample_doc = Inr sample_after"
proof -
  have "(case reset_group sample_host module_warn sample_robot sample_doc of
           Inl e \<Rightarrow> False | Inr t \<Rightarrow> True)"
    by code_simp
  then show ?thesis
    unfolding sample_after_def by (simp split: sum.splits)
qed

lemma sample_after_base: "objects sample_after 1 = Some (sample_base\<lparr>Group := [6]\<rparr>)"
  by code_simp

lemma sample_after_objects:
  "objects sample_after 6 = Some (blank\<lparr>Name := ''real_base000'', Label := ''real_base000'',
        kind := App_Link, LinkedObject := Some 3\<rparr>)"
  "objects sample_after 7 = None"
  "objects sample_after 8 = Some (blank\<lparr>Name := ''real_arm000'', Label := ''real_arm000'',
        kind := App_Link, LinkedObject := Some 4, LinkPlacement := MkPlacement (1, 2, 3) (0, 0, 0, 1)\<rparr>)"
  by code_simp+

lemma existing_link_loop_purged:
  assumes fin: "\<And>y. objects s' y = (if y \<in> D then None else map_option (purge (\<lambda>z. z \<in> D)) (objects t y))"
    and "existing_link_loop t xs src = Inr (Some p)" and "p \<notin> D" and "src \<notin> D"
  shows "existing_link_loop s' (filter (\<lambda>x. x \<notin> D) xs) src = Inr (Some p)"
  using assms(2)
proof (induction xs)
  case Nil
  then show ?case by simp
next
  case (Cons x xs)
  from Cons.prems obtain ob where ob: "objects t x = Some ob" and k: "kind ob = App_Link"
    by (auto split: option.splits if_splits)
  show ?case
  proof (cases "LinkedObject ob = Some src")
    case True
    with Cons.prems ob k have "x = p" by simp
    with \<open>p \<notin> D\<close> True ob k \<open>src \<notin> D\<close> show ?thesis
      by (simp add: fin)
  next
    case False
    with Cons.prems ob k have rest: "existing_link_loop t xs src = Inr (Some p)" by simp
    show ?thesis
    proof (cases "x \<in> D")
      case True
      with Cons.IH[OF rest] show ?thesis by simp
    next
      case xD: False
      from xD ob k False Cons.IH[OF rest] show ?thesis
        by (simp add: fin)
    qed
  qed
qed

lemma existing_link_purged:
  assumes fin: "\<And>y. objects s' y = (if y \<in> D then None else map_option (purge (\<lambda>z. z \<in> D)) (objects t y))"
    and f: "existing_link t L src = Inr (Some p)" and "p \<notin> D" and "src \<notin> D" and "L \<notin> D"
  shows "existing_link s' L src = Inr (Some p)"
proof -
  from f obtain lt where lt: "objects t L = Some lt"
    and scan: "existing_link_loop t (Group lt) src = Inr (Some p)"
    unfolding existing_link_eq_Inr by blast
  have "objects s' L = Some (purge (\<lambda>z. z \<in> D) lt)"
    using lt \<open>L \<notin> D\<close> by (simp add: fin)
  moreover have "existing_link_loop s' (Group (purge (\<lambda>z. z \<in> D) lt)) src = Inr (Some p)"
    using existing_link_loop_purged[of s' D t "Group lt" src p] fin scan assms(3,4) by simp
  ultimately show ?thesis unfolding existing_link_eq_Inr by blast
qed

lemma add_links_loop_found:
  assumes "\<forall>src\<in>set objs. \<exists>p. existing_link s link src = Inr (Some p)"
  shows "\<exists>res. add_links_loop h w link lod objs acc s = Inr (res, s)
     \<and> set res = set acc \<union> {p. \<exists>src\<in>set objs. existing_link s link src = Inr (Some p)}"
  using assms
proof (induction objs arbitrary: acc)
  case Nil
  then show ?case by simp
next
  case (Cons src rest)
  from Cons.prems obtain p where p: "existing_link s link src = Inr (Some p)" by auto
  from Cons.prems have "\<forall>x\<in>set rest. \<exists>p. existing_link s link x = Inr (Some p)" by auto
  from Cons.IH[OF this, of "acc @ [p]"] obtain res where
    res: "add_links_loop h w link lod rest (acc @ [p]) s = Inr (res, s)"
    "set res = set (acc @ [p]) \<union> {q. \<exists>x\<in>set rest. existing_link s link x = Inr (Some q)}"
    by blast
  have "add_links_loop h w link lod (src # rest) acc s = Inr (res, s)"
    using p res(1) by simp
  moreover have "set res = set acc \<union> {q. \<exists>x\<in>set (src # rest). existing_link s link x = Inr (Some q)}"
    unfolding res(2) using p by auto
  ultimately show ?case by blast
qed

lemma lod_pass_found:
  assumes "\<forall>l\<in>set ls. \<exists>lo. objects s l = Some lo
      \<and> (\<forall>src\<in>set (sel lo). \<exists>p. existing_link s l src = Inr (Some p))"
  shows "\<exists>res. lod_pass h w sel lod ls acc s = Inr (res, s)
     \<and> set res = set acc \<union> {p. \<exists>l\<in>set ls. \<exists>lo. objects s l = Some lo
           \<and> (\<exists>src\<in>set (sel lo). existing_link s l src = Inr (Some p))}"
  using assms
proof (induction ls arbitrary: acc)
  case Nil
  then show ?case by simp
next
  case (Cons l ls)
  from Cons.prems obtain lo where lo: "objects s l = Some lo"
    and all: "\<forall>src\<in>set (sel lo). \<exists>p. existing_link s l src = Inr (Some p)" by auto
  from add_links_loop_found[OF all, of h w lod "[]"] obtain r where
    r: "add_links_lod h w l (sel lo) lod s = Inr (r, s)"
    "set r = {p. \<exists>src\<in>set (sel lo). existing_link s l src = Inr (Some p)}"
    unfolding add_links_lod_def by auto
  from Cons.prems have "\<forall>l\<in>set ls. \<exists>lo. objects s l = Some lo
      \<and> (\<forall>src\<in>set (sel lo). \<exists>p. existing_link s l src = Inr (Some p))" by auto
  from Cons.IH[OF this, of "acc @ r"] obtain res where
    res: "lod_pass h w sel lod ls (acc @ r) s = Inr (res, s)"
    "set res = set (acc @ r) \<union> {p. \<exists>l\<in>set ls. \<exists>lo. objects s l = Some lo
           \<and> (\<exists>src\<in>set (sel lo). existing_link s l src = Inr (Some p))}"
    by blast
  have "lod_pass h w sel lod (l # ls) acc s = Inr (res, s)"
    using lo r(1) res(1) by simp
  moreover have "set res = set acc \<union> {p. \<exists>l'\<in>set (l # ls). \<exists>lo. objects s l' = Some lo
           \<and> (\<exists>src\<in>set (sel lo). existing_link s l' src = Inr (Some p))}"
    unfolding res(2) using lo r(2) by auto
  ultimately show ?case by blast
qed

lemma current_linked_live:
  assumes "\<forall>l\<in>set ls. objects s l \<noteq> None"
  shows "\<exists>c. current_linked s ls = Inr c"
  using assms by (induction ls) auto

lemma existing_link_loop_print [simp]:
  "existing_link_loop (print m s) xs src = existing_link_loop s xs src"
  by (induction xs) (simp_all split: option.splits)

lemma existing_link_print [simp]: "existing_link (print m s) L src = existing_link s L src"
  by (simp add: existing_link_def deref_def)

lemma flagged_pass_found:
  assumes "\<forall>l\<in>set ls. \<exists>lo. objects s l = Some lo
      \<and> (b \<longrightarrow> (\<forall>src\<in>set (sel lo). \<exists>p. existing_link s l src = Inr (Some p)))"
  shows "\<exists>res. (if b then lod_pass h w sel lod ls acc s else Inr (acc, s)) = Inr (res, s)
     \<and> set res = set acc \<union> (if b then {p. \<exists>l\<in>set ls. \<exists>lo. objects s l = Some lo
           \<and> (\<exists>src\<in>set (sel lo). existing_link s l src = Inr (Some p))} else {})"
proof (cases b)
  case True
  with assms have "\<forall>l\<in>set ls. \<exists>lo. objects s l = Some lo
      \<and> (\<forall>src\<in>set (sel lo). \<exists>p. existing_link s l src = Inr (Some p))" by simp
  from lod_pass_found[OF this, of h w lod acc] True show ?thesis by simp
next
  case False
  then show ?thesis by simp
qed

lemma reset_group_all_found:
  assumes r: "robot self = Some r" and rob: "objects s r = Some rob"
    and fr: "ShowReal rob = Some b1" and fv: "ShowVisual rob = Some b2"
    and fc: "ShowCollision rob = Some b3"
    and found: "\<forall>l\<in>set (get_links s (Group rob)). \<exists>lo. objects s l = Some lo
      \<and> (\<forall>src\<in>set (enabled_sources rob lo). \<exists>p. existing_link s l src = Inr (Some p))"
    and covered: "\<forall>l\<in>set (get_links s (Group rob)). \<forall>lo. objects s l = Some lo \<longrightarrow>
       (\<forall>x\<in>set (Group lo). \<exists>l'\<in>set (get_links s (Group rob)). \<exists>lo'. objects s l' = Some lo'
            \<and> (\<exists>src\<in>set (enabled_sources rob lo'). existing_link s l' src = Inr (Some x)))"
  shows "reset_group h w self s = Inr (print ''Robot::reset_group()'' s)"
proof -
  define links where "links = get_links s (Group rob)"
  define s0 where "s0 = print ''Robot::reset_group()'' s"
  have obj0: "objects s0 = objects s" by (simp add: s0_def)
  have unf: "reset_group h w self s = bind (current_linked s links) (\<lambda>current.
        bind (flag s0 r ShowReal ''ShowReal'') (\<lambda>b1.
        bind (if b1 then lod_pass h w Real' ''real'' links [] s0 else Inr ([], s0)) (\<lambda>(a1, s1).
        bind (flag s1 r ShowVisual ''ShowVisual'') (\<lambda>b2.
        bind (if b2 then lod_pass h w Visual ''visual'' links a1 s1 else Inr (a1, s1)) (\<lambda>(a2, s2).
        bind (flag s2 r ShowCollision ''ShowCollision'') (\<lambda>b3.
        bind (if b3 then lod_pass h w Collision ''collision'' links a2 s2 else Inr (a2, s2))
          (\<lambda>(a3, s3).
        remove_loop (filter (\<lambda>x. x \<notin> set a3) (remdups current)) s3)))))))"
    using r rob fr fv fc
    unfolding links_def s0_def by (simp add: reset_group_def Let_def deref_def)
  have live: "\<forall>l\<in>set links. objects s l \<noteq> None"
    using found unfolding links_def by auto
  from current_linked_live[OF live] obtain current where cur: "current_linked s links = Inr current"
    by blast
  have f1: "flag s0 r ShowReal ''ShowReal'' = Inr b1"
    and f2: "flag s0 r ShowVisual ''ShowVisual'' = Inr b2"
    and f3: "flag s0 r ShowCollision ''ShowCollision'' = Inr b3"
    using rob fr fv fc by (simp_all add: flag_def deref_def s0_def)
  have p1: "\<forall>l\<in>set links. \<exists>lo. objects s0 l = Some lo
      \<and> (b1 \<longrightarrow> (\<forall>src\<in>set (Real' lo). \<exists>p. existing_link s0 l src = Inr (Some p)))"
    using found fr unfolding links_def s0_def by (fastforce simp: enabled_sources_def)
  have p2: "\<forall>l\<in>set links. \<exists>lo. objects s0 l = Some lo
      \<and> (b2 \<longrightarrow> (\<forall>src\<in>set (Visual lo). \<exists>p. existing_link s0 l src = Inr (Some p)))"
    using found fv unfolding links_def s0_def by (fastforce simp: enabled_sources_def)
  have p3: "\<forall>l\<in>set links. \<exists>lo. objects s0 l = Some lo
      \<and> (b3 \<longrightarrow> (\<forall>src\<in>set (Collision lo). \<exists>p. existing_link s0 l src = Inr (Some p)))"
    using found fc unfolding links_def s0_def by (fastforce simp: enabled_sources_def)
  from flagged_pass_found[OF p1, of h w "''real''" "[]"] obtain a1 where
    a1: "(if b1 then lod_pass h w Real' ''real'' links [] s0 else Inr ([], s0)) = Inr (a1, s0)"
    and sa1: "set a1 = set [] \<union> (if b1 then {p. \<exists>l\<in>set links. \<exists>lo. objects s0 l = Some lo
           \<and> (\<exists>src\<in>set (Real' lo). existing_link s0 l src = Inr (Some p))} else {})"
    by blast
  from flagged_pass_found[OF p2, of h w "''visual''" a1] obtain a2 where
    a2: "(if b2 then lod_pass h w Visual ''visual'' links a1 s0 else Inr (a1, s0)) = Inr (a2, s0)"
    and sa2: "set a2 = set a1 \<union> (if b2 then {p. \<exists>l\<in>set links. \<exists>lo. objects s0 l = Some lo
           \<and> (\<exists>src\<in>set (Visual lo). existing_link s0 l src = Inr (Some p))} else {})"
    by blast
  from flagged_pass_found[OF p3, of h w "''collision''" a2] obtain a3 where
    a3: "(if b3 then lod_pass h w Collision ''collision'' links a2 s0 else Inr (a2, s0)) = Inr (a3, s0)"
    and sa3: "set a3 = set a2 \<union> (if b3 then {p. \<exists>l\<in>set links. \<exists>lo. objects s0 l = Some lo
           \<and> (\<exists>src\<in>set (Collision lo). existing_link s0 l src = Inr (Some p))} else {})"
    by blast
  have sub: "set current \<subseteq> set a3"
  proof
    fix x assume "x \<in> set current"
    then obtain l lo where l: "l \<in> set links" "objects s l = Some lo" "x \<in> set (Group lo)"
      unfolding current_linked_set[OF cur] by blast
    with covered obtain l' lo' src where l': "l' \<in> set links" "objects s l' = Some lo'"
      "src \<in> set (enabled_sources rob lo')" "existing_link s l' src = Inr (Some x)"
      unfolding links_def by blast
    from l'(3) consider "b1" "src \<in> set (Real' lo')" | "b2" "src \<in> set (Visual lo')"
      | "b3" "src \<in> set (Collision lo')"
      using fr fv fc by (auto simp: enabled_sources_def split: if_splits)
    then show "x \<in> set a3"
    proof cases
      case 1
      with l' have "x \<in> set a1" unfolding sa1 s0_def by auto
      then show ?thesis unfolding sa3 sa2 by simp
    next
      case 2
      with l' have "x \<in> set a2" unfolding sa2 s0_def by auto
      then show ?thesis unfolding sa3 by simp
    next
      case 3
      with l' show ?thesis unfolding sa3 s0_def by auto
    qed
  qed
  then have "filter (\<lambda>x. x \<notin> set a3) (remdups current) = []"
    by (auto simp: filter_empty_conv)
  then show ?thesis
    unfolding unf by (simp add: cur f1 a1 f2 a2 f3 a3 s0_def[symmetric])
qed

lemma filter_not_in: "(\<forall>x\<in>set xs. \<not> P x) \<Longrightarrow> filter (\<lambda>x. \<not> P x) xs = xs"
  by (induction xs) auto

lemma sample_sources_apart:
  "sources_apart sample_doc 0 (get_links sample_doc (Group sample_robot_object))"
  unfolding sample_links sources_apart_def
  by (simp add: sample_defs)



lemma sample_two_parents_raise:
  "add_links_lod sample_host module_warn 2 [4] ''real'' sample_doc_two_parents
   = Inl (NameError ''warn'')"
  "reset_group sample_host module_warn sample_robot sample_doc_two_parents
   = Inl (NameError ''warn'')"
proof -
  have "(case add_links_lod sample_host module_warn 2 [4] ''real'' sample_doc_two_parents of
           Inl e \<Rightarrow> e = NameError ''warn'' | Inr x \<Rightarrow> False)"
    by code_simp
  then show "add_links_lod sample_host module_warn 2 [4] ''real'' sample_doc_two_parents
     = Inl (NameError ''warn'')"
    by (simp split: sum.splits)
  have "(case reset_group sample_host module_warn sample_robot sample_doc_two_parents of
           Inl e \<Rightarrow> e = NameError ''warn'' | Inr x \<Rightarrow> False)"
    by code_simp
  then show "reset_group sample_host module_warn sample_robot sample_doc_two_parents
     = Inl (NameError ''warn'')"
    by (simp split: sum.splits)
qed




lemma nested_valid: "valid_doc nested_doc"
  unfolding valid_doc_def
proof (intro conjI allI impI)
  fix x assume "next_id nested_doc \<le> x"
  then show "objects nested_doc x = None" by (simp add: nested_doc_def)
next
  fix x y a b
  assume "objects nested_doc x = Some a \<and> objects nested_doc y = Some b \<and> Name a = Name b"
  then show "x = y"
    by (auto simp: nested_doc_def blank_def split: if_splits)
qed

lemma nested_links: "get_links nested_doc [1] = [1]"
  by (simp add: get_links_def nested_doc_def blank_def)

lemma nested_apart: "owned_apart nested_doc (get_links nested_doc [1])"
  unfolding nested_links owned_apart_def
  by (simp add: nested_doc_def blank_def)

lemma nested_run:
  "reset_group sample_host module_warn sample_robot nested_doc = Inr nested_after"
  "reset_group sample_host module_warn sample_robot nested_after = Inr nested_after2"
proof -
  have "(case reset_group sample_host module_warn sample_robot nested_doc of
           Inl e \<Rightarrow> False | Inr t \<Rightarrow> True)"
    by code_simp
  then show "reset_group sample_host module_warn sample_robot nested_doc = Inr nested_after"
    unfolding nested_after_def by (simp split: sum.splits)
  have "(case reset_group sample_host module_warn sample_robot nested_after of
           Inl e \<Rightarrow> False | Inr t \<Rightarrow> True)"
    by code_simp
  then show "reset_group sample_host module_warn sample_robot nested_after = Inr nested_after2"
    unfolding nested_after2_def by (simp split: sum.splits)
qed

subsection \<open>The claims\<close>

text \<open>
  C1. The claim: for the joint shoulder (revolute, parent base, child arm, origin the
  translation (0, 0, 0.5)) \<open>export_urdf\<close> returns a joint element named shoulder of type
  revolute whose children are a parent element naming base, a child element naming arm, the
  origin and the axis 0 0 1. The code does not: on the instance that \<open>__init__\<close> builds,
  \<open>export_urdf\<close> raises AttributeError at \<open>self.name\<close>, whatever the two helpers are.
  On an instance that also has the attributes \<open>name\<close> and \<open>origin\<close>, the element comes out
  in the claimed order, but the parent and the child element carry the literal text of the
  source (\<open>{valid_urdf_name(self.parent.Label)}\<close>) instead of base and arm.
\<close>

theorem export_urdf_shoulder:
  "export_urdf vn uo (Joint_init shoulder) = Inl (AttributeError ''name'')
   \<and> export_urdf sample_valid_urdf_name sample_urdf_origin
        ((Joint_init shoulder)(''name'' \<mapsto> PStr ''shoulder'',
           ''origin'' \<mapsto> PPlacement (Origin shoulder)))
      = Inr (Element ''joint'' [(''name'', ''shoulder''), (''type'', ''revolute'')]
          [Element ''parent'' [(''joint'', ''{valid_urdf_name(self.parent.Label)}'')] [],
           Element ''child'' [(''joint'', ''{valid_urdf_name(self.child.Label)}'')] [],
           Element ''origin'' [] [],
           Element ''axis'' [(''xyz'', ''0 0 1'')] []])"
  by (simp add: export_defs)

text \<open>
  C6. The claim: a joint whose Parent or Child is unset fails to export with a
  MissingEndpoint condition, and the other joints are still exported. The code has no such
  condition and exports no joint at all. For the joint \<open>loose\<close>, with both ends unset, the
  instance built by \<open>__init__\<close> raises AttributeError at \<open>self.name\<close>, before the lines
  that name the parent and the child; and so does the instance of every other joint
  object \<open>j\<close>, whatever its ends and whatever the two helpers are.
\<close>

theorem export_urdf_loose:
  "Parent loose = None \<and> Child loose = None
   \<and> export_urdf vn uo (Joint_init loose) = Inl (AttributeError ''name'')
   \<and> export_urdf vn uo (Joint_init j) = Inl (AttributeError ''name'')"
  by (simp add: export_defs)

text \<open>
  C9. The kinematic type enumeration of a joint is exactly fixed, revolute, prismatic, in
  this order: fixed has ordinal 0, revolute 1 and prismatic 2.
\<close>

theorem type_enum_ordinals:
  "type_enum = [''fixed'', ''revolute'', ''prismatic'']
   \<and> length type_enum = 3
   \<and> type_enum ! 0 = ''fixed'' \<and> type_enum ! 1 = ''revolute'' \<and> type_enum ! 2 = ''prismatic''"
  by (simp add: type_enum_def)

text \<open>
  C10. Persistence of the Robot proxy is a round trip on exactly two attributes:
  \<open>__getstate__\<close> returns the pair of \<open>type\<close> and \<open>previous_link_count\<close> and nothing
  else; \<open>__setstate__\<close> of a pair sets these two attributes to the pair's components and
  leaves every other attribute as it is; \<open>__setstate__\<close> of a falsy state changes nothing.
\<close>

theorem robot_state_roundtrip:
  "getstate a = PTuple [type a, previous_link_count a]
   \<and> setstate (PTuple [t, n]) b = Inr (b\<lparr>type := t, previous_link_count := n\<rparr>)
   \<and> setstate (getstate a) b = Inr (b\<lparr>type := type a, previous_link_count := previous_link_count a\<rparr>)
   \<and> (\<not> truthy s \<longrightarrow> setstate s b = Inr b)"
  by (simp add: getstate_def setstate_def)

theorem robot_state_roundtrip_witness:
  "\<not> truthy PNone
   \<and> setstate PNone \<lparr>robot = Some 0, type = PStr ''Ros::Robot'', previous_link_count = PInt 2,
        previous_show_real = None, previous_show_visual = None, previous_show_collision = None\<rparr>
     = Inr \<lparr>robot = Some 0, type = PStr ''Ros::Robot'', previous_link_count = PInt 2,
        previous_show_real = None, previous_show_visual = None, previous_show_collision = None\<rparr>"
  using robot_state_roundtrip [of _ _ _ _ PNone] by simp

text \<open>
  C5. After \<open>reset_group\<close> has returned on a robot with initialised flags, a link of
  the robot owns at most one proxy that references a given source object: two members
  \<open>p\<close> and \<open>q\<close> of the group of the link that reference the same object are the same
  proxy, whichever flags are set and wherever the object is listed. The lookup that
  decides reuse answers with a proxy whose \<open>LinkedObject\<close> is the object itself (the
  identifiers are compared, not names or labels). The document is one the host can hold
  (\<open>valid_doc\<close>, \<open>fresh_names\<close>) and the groups of the links are owned apart.
\<close>

theorem reset_group_dedup:
  assumes run: "reset_group h w self s = Inr s'"
    and r: "robot self = Some r" and rob: "objects s r = Some rob"
    and flags: "ShowReal rob \<noteq> None" "ShowVisual rob \<noteq> None" "ShowCollision rob \<noteq> None"
    and valid: "valid_doc s" and apart: "owned_apart s (get_links s (Group rob))"
    and host: "fresh_names h"
    and L: "L \<in> set (get_links s (Group rob))" and lo': "objects s' L = Some lo'"
    and p: "p \<in> set (Group lo')" "references s' p src"
    and q: "q \<in> set (Group lo')" "references s' q src"
  shows "p = q \<and> (\<forall>x y. existing_link s' L y = Inr (Some x) \<longrightarrow> references s' x y)"
proof -
  from reset_group_final[OF run r rob flags valid apart host] obtain current acc t where
    cur: "current_linked s (get_links s (Group rob)) = Inr current"
    and inv: "pass_inv (get_links s (Group rob)) s (demand_pairs s rob (get_links s (Group rob)))
           (demand_pairs s rob (get_links s (Group rob))) acc t"
    and fin: "objects s' = (\<lambda>y. if y \<in> set current - set acc then None
                            else map_option (purge (\<lambda>z. z \<in> set current - set acc)) (objects t y))"
    by blast
  have final: "\<And>y. objects s' y = (if y \<in> set current - set acc then None
         else map_option (purge (\<lambda>z. z \<in> set current - set acc)) (objects t y))"
    unfolding fin by simp
  from dedup_after[OF inv cur final L lo' p]
  have "existing_link t L src = Inr (Some p)" by simp
  moreover from dedup_after[OF inv cur final L lo' q]
  have "existing_link t L src = Inr (Some q)" by simp
  ultimately have "p = q" by simp
  moreover have "\<forall>x y. existing_link s' L y = Inr (Some x) \<longrightarrow> references s' x y"
    using existing_link_Some_D by blast
  ultimately show ?thesis by blast
qed

theorem reset_group_dedup_witness:
  "reset_group sample_host module_warn sample_robot sample_doc = Inr sample_after
   \<and> valid_doc sample_doc \<and> fresh_names sample_host
   \<and> owned_apart sample_doc (get_links sample_doc (Group sample_robot_object))
   \<and> references sample_after 6 3 \<and> (6::oid) = 6"
proof -
  have r: "robot sample_robot = Some 0" by (simp add: sample_robot_def)
  have rob: "objects sample_doc 0 = Some sample_robot_object" by (simp add: sample_doc_def)
  have flags: "ShowReal sample_robot_object \<noteq> None" "ShowVisual sample_robot_object \<noteq> None"
    "ShowCollision sample_robot_object \<noteq> None"
    by (simp_all add: sample_defs)
  have L: "1 \<in> set (get_links sample_doc (Group sample_robot_object))"
    by (simp add: sample_links)
  have p: "6 \<in> set (Group (sample_base\<lparr>Group := [6]\<rparr>))" by simp
  have ref: "references sample_after 6 3"
    by (simp add: references_def sample_after_objects blank_def)
  from reset_group_dedup[OF sample_run r rob flags sample_valid sample_apart sample_fresh L
      sample_after_base p ref p ref]
  show ?thesis using sample_run sample_valid sample_fresh sample_apart ref by blast
qed



text \<open>
  C4. The claim: \<open>reset_group\<close> is idempotent for any robot with initialised flags. It
  is not when a member of the group of a link is itself listed as a source object of the
  link. In the document \<open>nested_doc\<close> the link base lists its own proxy 3 in \<open>Real\<close>. The
  first call creates proxy 4 for it and destroys proxy 3, and the host takes the destroyed
  object out of the lists that hold it; the second call, with nothing changed in between,
  destroys proxy 4.
\<close>

theorem reset_group_twice_counterexample:
  "valid_doc nested_doc \<and> fresh_names sample_host
   \<and> owned_apart nested_doc (get_links nested_doc [1])
   \<and> map_option Group (objects nested_doc 0) = Some [1]
   \<and> reset_group sample_host module_warn sample_robot nested_doc = Inr nested_after
   \<and> reset_group sample_host module_warn sample_robot nested_after = Inr nested_after2
   \<and> objects nested_after 4 \<noteq> None \<and> objects nested_after2 4 = None"
proof -
  have "map_option Group (objects nested_doc 0) = Some [1]"
    by (simp add: nested_doc_def blank_def)
  moreover have "objects nested_after 4 \<noteq> None" by code_simp
  moreover have "objects nested_after2 4 = None" by code_simp
  ultimately show ?thesis
    using nested_valid sample_fresh nested_apart nested_run by simp
qed

text \<open>
  C4, as amended. \<open>reset_group\<close> is idempotent provided that no member of the group of a
  link is a source object of a link, a link of the robot or the robot itself
  (\<open>sources_apart\<close>). When a call on a robot with initialised flags has then returned, a
  second call with nothing changed in between returns too and leaves every object of the
  document as it was (same proxies, with the same names, sources and placements) and
  allocates no object: it creates no proxy and destroys none.
\<close>

theorem reset_group_idempotent:
  assumes run: "reset_group h w self s = Inr s'"
    and r: "robot self = Some r" and rob: "objects s r = Some rob"
    and flags: "ShowReal rob \<noteq> None" "ShowVisual rob \<noteq> None" "ShowCollision rob \<noteq> None"
    and valid: "valid_doc s" and apart: "owned_apart s (get_links s (Group rob))"
    and host: "fresh_names h"
    and src_apart: "sources_apart s r (get_links s (Group rob))"
  shows "\<exists>s''. reset_group h w self s' = Inr s'' \<and> objects s'' = objects s'
           \<and> next_id s'' = next_id s'"
proof -
  define links where "links = get_links s (Group rob)"
  define dem where "dem = demand_pairs s rob links"
  from reset_group_final[OF run r rob flags valid apart host] obtain current acc t where
    cur: "current_linked s links = Inr current"
    and inv: "pass_inv links s dem dem acc t"
    and fin: "objects s' = (\<lambda>y. if y \<in> set current - set acc then None
                            else map_option (purge (\<lambda>z. z \<in> set current - set acc)) (objects t y))"
    unfolding links_def dem_def by blast
  define D where "D = set current - set acc"
  have final: "\<And>y. objects s' y = (if y \<in> D then None
         else map_option (purge (\<lambda>z. z \<in> D)) (objects t y))"
    unfolding fin D_def by simp
  have final': "\<And>y. objects s' y = (if y \<in> set current - set acc then None
         else map_option (purge (\<lambda>z. z \<in> set current - set acc)) (objects t y))"
    unfolding fin by simp
  have curD: "x \<noteq> r \<and> x \<notin> set links
       \<and> (\<forall>M\<in>set links. \<forall>mo. objects s M = Some mo \<longrightarrow>
             x \<notin> set (Real' mo) \<and> x \<notin> set (Visual mo) \<and> x \<notin> set (Collision mo))"
    if "x \<in> D" for x
  proof -
    from that have "x \<in> set current" unfolding D_def by simp
    then obtain L lo where "L \<in> set links" "objects s L = Some lo" "x \<in> set (Group lo)"
      unfolding current_linked_set[OF cur] by blast
    with src_apart show ?thesis unfolding sources_apart_def links_def by blast
  qed
  have accD: "p \<notin> D" if "p \<in> set acc" for p using that unfolding D_def by simp
  have rD: "r \<notin> D" using curD by blast
  have linkD: "L \<notin> D" if "L \<in> set links" for L using curD that by blast
  have link0: "\<exists>l0. objects s L = Some l0 \<and> kind l0 = Ros_Link" if "L \<in> set links" for L
    using that get_links_live unfolding links_def by blast
  have srcD: "src \<notin> D" if "(L, src) \<in> dem" for L src
  proof
    assume "src \<in> D"
    from that obtain lo where "L \<in> set links" "objects s L = Some lo"
      "src \<in> set (enabled_sources rob lo)"
      unfolding dem_def demand_pairs_def by blast
    moreover from this(3) have "src \<in> set (Real' lo) \<or> src \<in> set (Visual lo) \<or> src \<in> set (Collision lo)"
      by (auto simp: enabled_sources_def split: if_splits)
    ultimately show False using curD[OF \<open>src \<in> D\<close>] by blast
  qed
  from flags obtain b1 b2 b3 where fl: "ShowReal rob = Some b1" "ShowVisual rob = Some b2"
    "ShowCollision rob = Some b3" by auto
  \<comment> \<open>the robot object after the first call\<close>
  from pass_inv_grown[OF inv rob] obtain ysr where
    rt: "objects t r = Some (rob\<lparr>Group := Group rob @ ysr\<rparr>)"
    and ysr: "\<forall>y\<in>set ysr. next_id s \<le> y" by blast
  define rob' where "rob' = purge (\<lambda>z. z \<in> D) (rob\<lparr>Group := Group rob @ ysr\<rparr>)"
  have rob'_obj: "objects s' r = Some rob'"
    using rt rD by (simp add: final rob'_def)
  have fl': "ShowReal rob' = Some b1" "ShowVisual rob' = Some b2" "ShowCollision rob' = Some b3"
    using fl by (simp_all add: rob'_def)
  have es: "enabled_sources rob' lo = enabled_sources rob lo" for lo
    using fl fl' by (simp add: enabled_sources_def)
  \<comment> \<open>the links after the first call\<close>
  define islink where "islink u x = (case objects u x of None \<Rightarrow> False | Some ob \<Rightarrow> kind ob = Ros_Link)"
    for u :: doc and x
  have gl: "get_links u g = filter (islink u) g" for u :: doc and g
    unfolding get_links_def islink_def by (rule filter_cong) auto
  have il_old: "(x \<notin> D \<and> islink s' x) = islink s x" if "x \<in> set (Group rob)" for x
  proof (cases "objects s x")
    case None
    have "\<not> islink s' x"
    proof (cases "objects t x")
      case None
      then show ?thesis by (simp add: islink_def final)
    next
      case (Some ob)
      from pass_inv_fresh[OF inv \<open>objects s x = None\<close> Some] have "kind ob = App_Link" by simp
      with Some show ?thesis by (simp add: islink_def final)
    qed
    with None show ?thesis by (simp add: islink_def)
  next
    case (Some ob0)
    from pass_inv_grown[OF inv Some] obtain ys where
      xt: "objects t x = Some (ob0\<lparr>Group := Group ob0 @ ys\<rparr>)" by blast
    show ?thesis
    proof (cases "kind ob0 = Ros_Link")
      case True
      with Some that have "x \<in> set links"
        unfolding links_def get_links_def by simp
      from linkD[OF this] True Some xt show ?thesis
        by (simp add: islink_def final)
    next
      case False
      with Some xt show ?thesis by (simp add: islink_def final)
    qed
  qed
  have il_new: "\<not> (x \<notin> D \<and> islink s' x)" if "x \<in> set ysr" for x
  proof -
    from that ysr have "next_id s \<le> x" by simp
    with valid have none: "objects s x = None" unfolding valid_doc_def by simp
    show ?thesis
    proof (cases "objects t x")
      case None
      then show ?thesis by (simp add: islink_def final)
    next
      case (Some ob)
      from pass_inv_fresh[OF inv none Some] have "kind ob = App_Link" by simp
      with Some show ?thesis by (simp add: islink_def final)
    qed
  qed
  have links': "get_links s' (Group rob') = links"
  proof -
    have "get_links s' (Group rob') = filter (\<lambda>x. x \<notin> D \<and> islink s' x) (Group rob)
         @ filter (\<lambda>x. x \<notin> D \<and> islink s' x) ysr"
      unfolding gl rob'_def by (simp add: conj_commute)
    also have "filter (\<lambda>x. x \<notin> D \<and> islink s' x) (Group rob) = filter (islink s) (Group rob)"
      by (rule filter_cong) (use il_old in auto)
    also have "filter (\<lambda>x. x \<notin> D \<and> islink s' x) ysr = []"
      using il_new by (auto simp: filter_empty_conv)
    finally show ?thesis unfolding links_def gl by simp
  qed
  have link': "\<exists>lo'. objects s' L = Some lo' \<and> enabled_sources rob' lo' = enabled_sources rob l0"
    if "L \<in> set links" "objects s L = Some l0" for L l0
  proof -
    from pass_inv_grown[OF inv that(2)] obtain ys where
      lt: "objects t L = Some (l0\<lparr>Group := Group l0 @ ys\<rparr>)" by blast
    define lo' where "lo' = purge (\<lambda>z. z \<in> D) (l0\<lparr>Group := Group l0 @ ys\<rparr>)"
    have lo'_obj: "objects s' L = Some lo'"
      using lt linkD[OF that(1)] by (simp add: final lo'_def)
    have nd: "\<forall>x\<in>set (Real' l0). \<not> x \<in> D" "\<forall>x\<in>set (Visual l0). \<not> x \<in> D"
      "\<forall>x\<in>set (Collision l0). \<not> x \<in> D"
      using curD that by blast+
    have "Real' lo' = Real' l0" "Visual lo' = Visual l0" "Collision lo' = Collision l0"
      unfolding lo'_def using nd by (simp_all add: filter_not_in)
    then have "enabled_sources rob' lo' = enabled_sources rob l0"
      using fl fl' by (simp add: enabled_sources_def)
    with lo'_obj show ?thesis by blast
  qed
  have f3: "\<exists>p. existing_link s' L src = Inr (Some p)" if "(L, src) \<in> dem" for L src
  proof -
    from pass_inv_done[OF inv that] obtain p where p: "p \<in> set acc"
      "existing_link t L src = Inr (Some p)" by blast
    from that have "L \<in> set links" unfolding dem_def demand_pairs_def by blast
    from existing_link_purged[of s' D t L src p] final p(2) accD[OF p(1)] srcD[OF that]
      linkD[OF this]
    show ?thesis by blast
  qed
  have f4: "\<exists>L1 s1. (L1, s1) \<in> dem \<and> existing_link s' L1 s1 = Inr (Some x)"
    if L: "L \<in> set links" and lo': "objects s' L = Some lo'" and x: "x \<in> set (Group lo')"
    for L lo' x
  proof -
    from lo' obtain lt where lt: "objects t L = Some lt"
      and lo'_eq: "lo' = purge (\<lambda>z. z \<in> D) lt"
      unfolding final by (auto split: if_splits)
    from x have xt: "x \<in> set (Group lt)" and xD: "x \<notin> D"
      unfolding lo'_eq by auto
    have xacc: "x \<in> set acc"
      using member_in_acc[OF inv cur L lt xt] xD unfolding D_def by blast
    from pass_inv_acc[OF inv xacc] obtain L1 s1 where d: "(L1, s1) \<in> dem" "L1 \<in> set links"
      "existing_link t L1 s1 = Inr (Some x)" by blast
    from existing_link_purged[of s' D t L1 s1 x] final d(3) xD srcD[OF d(1)] linkD[OF d(2)]
    have "existing_link s' L1 s1 = Inr (Some x)" by blast
    with d(1) show ?thesis by blast
  qed
  have found: "\<forall>l\<in>set (get_links s' (Group rob')). \<exists>lo. objects s' l = Some lo
      \<and> (\<forall>src\<in>set (enabled_sources rob' lo). \<exists>p. existing_link s' l src = Inr (Some p))"
    unfolding links'
  proof
    fix l assume l: "l \<in> set links"
    from link0[OF l] obtain l0 where l0: "objects s l = Some l0" by blast
    from link'[OF l l0] obtain lo' where lo': "objects s' l = Some lo'"
      "enabled_sources rob' lo' = enabled_sources rob l0" by blast
    have "\<exists>p. existing_link s' l src = Inr (Some p)" if "src \<in> set (enabled_sources rob' lo')" for src
    proof -
      from that lo'(2) l l0 have "(l, src) \<in> dem"
        unfolding dem_def demand_pairs_def by auto
      from f3[OF this] show ?thesis .
    qed
    with lo'(1) show "\<exists>lo. objects s' l = Some lo
      \<and> (\<forall>src\<in>set (enabled_sources rob' lo). \<exists>p. existing_link s' l src = Inr (Some p))"
      by blast
  qed
  have covered: "\<forall>l\<in>set (get_links s' (Group rob')). \<forall>lo. objects s' l = Some lo \<longrightarrow>
       (\<forall>x\<in>set (Group lo). \<exists>l'\<in>set (get_links s' (Group rob')). \<exists>lo'. objects s' l' = Some lo'
            \<and> (\<exists>src\<in>set (enabled_sources rob' lo'). existing_link s' l' src = Inr (Some x)))"
    unfolding links'
  proof (intro ballI allI impI)
    fix l lo x
    assume l: "l \<in> set links" and lo: "objects s' l = Some lo" and x: "x \<in> set (Group lo)"
    from f4[OF l lo x] obtain L1 s1 where d: "(L1, s1) \<in> dem"
      "existing_link s' L1 s1 = Inr (Some x)" by blast
    from d(1) obtain l1 where l1: "L1 \<in> set links" "objects s L1 = Some l1"
      "s1 \<in> set (enabled_sources rob l1)"
      unfolding dem_def demand_pairs_def by blast
    from link'[OF l1(1,2)] obtain lo1 where lo1: "objects s' L1 = Some lo1"
      "enabled_sources rob' lo1 = enabled_sources rob l1" by blast
    have "s1 \<in> set (enabled_sources rob' lo1)" using lo1(2) l1(3) by simp
    with l1(1) lo1(1) d(2) show "\<exists>l'\<in>set links. \<exists>lo'. objects s' l' = Some lo'
            \<and> (\<exists>src\<in>set (enabled_sources rob' lo'). existing_link s' l' src = Inr (Some x))"
      by blast
  qed
  from reset_group_all_found[OF r rob'_obj fl' found covered]
  have "reset_group h w self s' = Inr (print ''Robot::reset_group()'' s')" .
  then show ?thesis by simp
qed

theorem reset_group_idempotent_witness:
  "reset_group sample_host module_warn sample_robot sample_doc = Inr sample_after
   \<and> valid_doc sample_doc \<and> fresh_names sample_host
   \<and> owned_apart sample_doc (get_links sample_doc (Group sample_robot_object))
   \<and> sources_apart sample_doc 0 (get_links sample_doc (Group sample_robot_object))
   \<and> (\<exists>s''. reset_group sample_host module_warn sample_robot sample_after = Inr s''
          \<and> objects s'' = objects sample_after \<and> next_id s'' = next_id sample_after)"
proof -
  have r: "robot sample_robot = Some 0" by (simp add: sample_robot_def)
  have rob: "objects sample_doc 0 = Some sample_robot_object" by (simp add: sample_doc_def)
  have flags: "ShowReal sample_robot_object \<noteq> None" "ShowVisual sample_robot_object \<noteq> None"
    "ShowCollision sample_robot_object \<noteq> None"
    by (simp_all add: sample_defs)
  from reset_group_idempotent[OF sample_run r rob flags sample_valid sample_apart sample_fresh
      sample_sources_apart]
  show ?thesis
    using sample_run sample_valid sample_fresh sample_apart sample_sources_apart by blast
qed




text \<open>
  C2. The claim: for a source object with more than one structural parent the
  synchronisation emits one warning, gives the new proxy the identity placement and goes
  on without an exception. The code calls \<open>warn\<close> at this point, a name that robot.py
  neither defines nor imports: on the sample document in which the source object Cyl has
  two structural parents and no proxy yet, \<open>_add_links_lod\<close> raises NameError, and so
  does \<open>reset_group\<close>; no proxy is created and no placement assigned.
\<close>

theorem add_links_lod_two_parents_raises:
  "length (Parents two_parents) = 2
   \<and> objects sample_doc_two_parents 4 = Some two_parents
   \<and> add_links_lod sample_host module_warn 2 [4] ''real'' sample_doc_two_parents
     = Inl (NameError ''warn'')
   \<and> reset_group sample_host module_warn sample_robot sample_doc_two_parents
     = Inl (NameError ''warn'')"
  using sample_two_parents_raise
  by (simp add: two_parents_def blank_def sample_doc_two_parents_def)




end
